theory Spec2Isabelle
  imports Main "HOL-Library.Sublist" "HOL-Library.Multiset"
begin


section \<open>The graph node builder: data model\<close>

text \<open>
  The records follow the interfaces of the module that defines \<open>parse\<close>. Field names
  that occur in several interfaces carry the interface as a prefix; \<open>map\<close> is
  written \<open>map'\<close>.
\<close>

text \<open>\<open>ModuleInformation\<close>, as \<open>parse\<close> uses it: \<open>module.name\<close>, \<open>module.path\<close>,
  and the flag \<open>info.module\<close> that marks an external module.\<close>

record ModuleInformation =
  info_name :: string
  info_path :: string
  info_module :: bool

record ZipeDependency =
  dep_module :: string
  importPath :: string
  importLine :: string
  info :: ModuleInformation
  dynamic :: bool

typedecl StyleHeader

record Extra =
  extra_styles :: "StyleHeader list"
  extra_raw :: unit

record SfcStyles =
  styles_code :: string
  styles_map :: "string option"
  styles_modules :: "(string \<times> string) list option"

record SfcTemplate =
  template_code :: string
  template_map :: "string option"

record SfcScript =
  script_code :: string
  script_map :: "string option"
  script_dependencies :: "ZipeDependency list"
  script_exports :: "string list"

record Sfc =
  scopeId :: "string option"
  styles :: SfcStyles
  template :: SfcTemplate
  script :: SfcScript

record ZipeModule =
  name :: string
  extension :: string
  rawContent :: string
  dependencies :: "ZipeDependency list"
  fullDependencies :: "ZipeDependency list"
  module :: ModuleInformation
  extra :: Extra
  code :: "string option"
  map' :: "string option"
  sfc :: Sfc
  exports :: "string list"
  dependenciesPromise :: "ZipeDependency list option"

datatype error = NotFound | ResolutionError

type_synonym ModuleResolver = "string \<Rightarrow> string \<Rightarrow> error + ModuleInformation"

type_synonym ZipeScriptTransform = "string \<Rightarrow> string \<Rightarrow> string \<times> string option"

text \<open>
  What \<open>parse\<close> receives and imports. \<open>resolver\<close>, \<open>fileCache\<close>, \<open>sfcParser\<close> and
  \<open>transformers\<close> are its parameters, handed unchanged to every recursive call;
  \<open>basename\<close> and \<open>extname\<close> are those of \<open>posix\<close>, and \<open>parseImportsExports\<close> is
  imported from a module that is not at hand: all are taken as given functions.
  \<open>resolver\<close> is \<open>resolver.info\<close> and \<open>fileCache\<close> is \<open>fileCache.get\<close>; both are awaited,
  and a rejection is the \<open>Inl\<close> of the result.

  \<open>settle\<close> stands for the timing of the run: the instant at which the promise of the
  call at a given position of the call tree settles. A position is the list of
  indices, in the \<open>dependencies\<close> lists, that lead from the entry call to the call.
\<close>

record env =
  resolver :: ModuleResolver
  fileCache :: "string \<Rightarrow> error + string"
  sfcParser :: "string \<Rightarrow> string \<Rightarrow> (string \<Rightarrow> ZipeScriptTransform option) \<Rightarrow> Sfc"
  transformers :: "string \<Rightarrow> ZipeScriptTransform option"
  parseImportsExports :: "string \<Rightarrow> string \<Rightarrow> ModuleResolver \<Rightarrow> ZipeDependency list \<times> string list"
  basename :: "string \<Rightarrow> string"
  extname :: "string \<Rightarrow> string"
  settle :: "nat list \<Rightarrow> nat"

text \<open>
  The effects of \<open>parse\<close> that a caller can observe, in program order: the call itself
  (with its position), the registration \<open>dependenciesCache.set(module.path, item)\<close>
  with the fields the node has at that moment, the read \<open>fileCache.get(module.name)\<close>,
  the calls of the composite parser and of a transform, and the warning.
  \<open>parse\<close> only ever writes the graph cache, so the log of the writes is all of it
  that the model keeps.
\<close>

datatype event =
    Call "nat list" string string
  | CacheSet string ZipeModule
  | FileGet string
  | SfcParse string string
  | Transform string string string
  | Warn string

section \<open>The graph node builder: \<open>parse\<close>\<close>

definition newItem :: "string \<Rightarrow> ModuleInformation \<Rightarrow> string \<Rightarrow> ZipeModule" where
  "newItem nm m ext =
     \<lparr> name = nm, extension = ext, rawContent = [], dependencies = [],
       fullDependencies = [], module = m,
       extra = \<lparr> extra_styles = [], extra_raw = () \<rparr>,
       code = None, map' = None,
       sfc = \<lparr> scopeId = None,
               styles = \<lparr> styles_code = [], styles_map = None, styles_modules = None \<rparr>,
               template = \<lparr> template_code = [], template_map = None \<rparr>,
               script = \<lparr> script_code = [], script_map = None,
                          script_dependencies = [], script_exports = [] \<rparr> \<rparr>,
       exports = [], dependenciesPromise = None \<rparr>"

text \<open>The two branches on the extension: the node after them, and their events.\<close>

definition compileItem :: "env \<Rightarrow> string \<Rightarrow> ZipeModule \<Rightarrow> ZipeModule \<times> event list" where
  "compileItem e filePath item =
     (if extension item = ''vue'' then
        let item1 = item\<lparr>sfc := sfcParser e (rawContent item) filePath (transformers e)\<rparr>;
            (imports, exps) =
               parseImportsExports e (script_code (script (sfc item1)))
                 (info_name (module item1)) (resolver e);
            item2 = item1\<lparr>sfc := (sfc item1)\<lparr>script := (script (sfc item1))
                       \<lparr>script_dependencies := imports, script_exports := exps\<rparr>\<rparr>\<rparr>
        in (item2\<lparr>dependencies := dependencies item2 @ imports\<rparr>,
            [SfcParse (rawContent item) filePath])
      else
        (case transformers e (extension item) of
           Some transformer \<Rightarrow>
             let (c, m) = transformer (rawContent item) filePath;
                 item1 = item\<lparr>code := Some c, map' := m\<rparr>;
                 (imports, exps) =
                    parseImportsExports e (script_code (script (sfc item1)))
                      (info_name (module item1)) (resolver e)
             in (item1\<lparr>dependencies := dependencies item1 @ imports,
                        exports := exports item1 @ exps\<rparr>,
                 [Transform (extension item) (rawContent item) filePath])
         | None \<Rightarrow> (item, [Warn (''[zipe] no transformer found for '' @ filePath)])))"

text \<open>The dependencies the loop iterates over, each with its index in \<open>dependencies\<close>.\<close>

definition children :: "ZipeModule \<Rightarrow> (nat \<times> ZipeDependency) list" where
  "children item = filter (\<lambda>(i, x). \<not> info_module (info x)) (enumerate 0 (dependencies item))"

text \<open>The callback of \<open>then\<close> on a fulfilled sub-resolution.\<close>

definition thenStep :: "ZipeModule \<Rightarrow> ZipeModule \<Rightarrow> ZipeModule" where
  "thenStep item x =
     item\<lparr>extra := (extra item)\<lparr>extra_styles := extra_styles (extra item) @ extra_styles (extra x)\<rparr>,
          fullDependencies := fullDependencies item @ fullDependencies x\<rparr>"

text \<open>
  The sub-resolutions in the order in which they settle: by \<open>settle\<close>, and in the
  order of the loop where two settle at the same instant.
\<close>

definition settled :: "env \<Rightarrow> nat list \<Rightarrow> (nat \<times> 'a) list \<Rightarrow> 'a list" where
  "settled e pos rs = map snd (sort_key (\<lambda>(i, r). settle e (pos @ [i])) rs)"

text \<open>
  \<open>await Promise.all(promises)\<close>, over the outcomes in the order in which they settle:
  the callbacks of the fulfilled ones run in that order, and the first rejection is
  the rejection of the whole.
\<close>

definition awaitAll :: "ZipeModule \<Rightarrow> (error + ZipeModule) list \<Rightarrow> error + ZipeModule" where
  "awaitAll item outs =
     (case [err. Inl err \<leftarrow> outs] of
        err # _ \<Rightarrow> Inl err
      | [] \<Rightarrow> Inr (foldl thenStep item [x. Inr x \<leftarrow> outs]))"

text \<open>
  \<open>parse\<close>, with fuel for the depth of the recursion. \<open>None\<close> is a resolution that has
  not come to rest within the fuel; \<open>Some (out, evs)\<close> is one that has, every
  sub-resolution included, with \<open>out\<close> what the promise of the call settles with and
  \<open>evs\<close> its events. The events of one call are in program order; the events of the
  sub-resolutions, which run interleaved, are listed one sub-resolution after the
  other, in the order of the loop.
\<close>

fun parse :: "nat \<Rightarrow> env \<Rightarrow> nat list \<Rightarrow> string \<Rightarrow> string \<Rightarrow> ((error + ZipeModule) \<times> event list) option" where
  "parse 0 e pos filePath importer = None"
| "parse (Suc n) e pos filePath importer =
     (case resolver e filePath importer of
        Inl err \<Rightarrow> Some (Inl err, [Call pos filePath importer])
      | Inr m \<Rightarrow>
          let item = newItem (basename e (info_name m)) m (drop 1 (extname e (info_path m)))
          in (case fileCache e (info_name m) of
                Inl err \<Rightarrow>
                  Some (Inl err,
                    [Call pos filePath importer, CacheSet (info_path m) item, FileGet (info_name m)])
              | Inr content \<Rightarrow>
                  let (item1, evs) = compileItem e filePath (item\<lparr>rawContent := content\<rparr>);
                      item2 = item1\<lparr>fullDependencies := fullDependencies item1 @ dependencies item1\<rparr>
                  in (case those (map (\<lambda>(i, dependency).
                                 parse n e (pos @ [i]) (info_path (info dependency))
                                   (info_path (module item2))) (children item2)) of
                        None \<Rightarrow> None
                      | Some rs \<Rightarrow>
                          Some (awaitAll item2
                                  (settled e pos (zip (map fst (children item2)) (map fst rs))),
                                [Call pos filePath importer, CacheSet (info_path m) item,
                                 FileGet (info_name m)] @ evs @ concat (map snd rs)))))"

section \<open>The dependency graph of a run\<close>

text \<open>
  The node as it stands when the loop over the dependencies starts: the resolver and
  the content source have answered, the branch on the extension is done and
  \<open>fullDependencies\<close> is seeded. \<open>None\<close> when the resolver or the content source
  rejects.
\<close>

definition seeded :: "env \<Rightarrow> string \<Rightarrow> string \<Rightarrow> ZipeModule option" where
  "seeded e filePath importer =
     (case resolver e filePath importer of
        Inl err \<Rightarrow> None
      | Inr m \<Rightarrow>
          (case fileCache e (info_name m) of
             Inl err \<Rightarrow> None
           | Inr content \<Rightarrow>
               let item1 = fst (compileItem e filePath
                     ((newItem (basename e (info_name m)) m (drop 1 (extname e (info_path m))))
                        \<lparr>rawContent := content\<rparr>))
               in Some (item1\<lparr>fullDependencies := fullDependencies item1 @ dependencies item1\<rparr>)))"

text \<open>The events of a call itself, without those of its sub-resolutions.\<close>

definition ownEvents :: "env \<Rightarrow> nat list \<Rightarrow> string \<Rightarrow> string \<Rightarrow> event list" where
  "ownEvents e pos filePath importer =
     (case resolver e filePath importer of
        Inl err \<Rightarrow> [Call pos filePath importer]
      | Inr m \<Rightarrow>
          [Call pos filePath importer,
           CacheSet (info_path m) (newItem (basename e (info_name m)) m (drop 1 (extname e (info_path m)))),
           FileGet (info_name m)] @
          (case fileCache e (info_name m) of
             Inl err \<Rightarrow> []
           | Inr content \<Rightarrow>
               snd (compileItem e filePath
                     ((newItem (basename e (info_name m)) m (drop 1 (extname e (info_path m))))
                        \<lparr>rawContent := content\<rparr>))))"

text \<open>The arguments \<open>(filePath, importer)\<close> of the recursive call for a dependency.\<close>

definition callOf :: "ZipeModule \<Rightarrow> ZipeDependency \<Rightarrow> string \<times> string" where
  "callOf item dependency = (info_path (info dependency), info_path (module item))"

text \<open>The recursive calls that the call \<open>(filePath, importer)\<close> makes.\<close>

definition subcalls :: "env \<Rightarrow> string \<times> string \<Rightarrow> (string \<times> string) list" where
  "subcalls e c =
     (case seeded e (fst c) (snd c) of
        None \<Rightarrow> []
      | Some item \<Rightarrow> map (\<lambda>(i, dependency). callOf item dependency) (children item))"


text \<open>
  \<open>reachable e c d\<close>: the dependency edge \<open>d\<close> is a direct dependency of the call \<open>c\<close>,
  or of a call reached from \<open>c\<close> through non-external dependencies.
\<close>

inductive reachable :: "env \<Rightarrow> string \<times> string \<Rightarrow> ZipeDependency \<Rightarrow> bool" for e where
  direct: "seeded e (fst c) (snd c) = Some item \<Longrightarrow> d \<in> set (dependencies item) \<Longrightarrow> reachable e c d"
| indirect: "c' \<in> set (subcalls e c) \<Longrightarrow> reachable e c' d \<Longrightarrow> reachable e c d"



text \<open>The outcomes of the sub-resolutions of a node, in the order of the loop.\<close>

definition subresults :: "nat \<Rightarrow> env \<Rightarrow> nat list \<Rightarrow> ZipeModule \<Rightarrow> ((error + ZipeModule) \<times> event list) option list" where
  "subresults n e pos item =
     map (\<lambda>(i, dependency). parse n e (pos @ [i]) (fst (callOf item dependency)) (snd (callOf item dependency)))
       (children item)"


section \<open>The composite-component compiler: data model\<close>

text \<open>
  The blocks of a composite file as the compile functions read them. \<open>lang\<close>,
  \<open>scoped\<close> and \<open>module\<close> may be absent; \<open>module\<close> is a boolean or a string. A source
  map is carried as its text.
\<close>

type_synonym RawSourceMap = string

record SFCBlock =
  block_content :: string
  block_lang :: "string option"
  block_map :: "RawSourceMap option"

datatype ModuleAttr = ModuleFlag bool | ModuleName string

record SFCStyleBlock =
  style_content :: string
  style_lang :: "string option"
  style_scoped :: "bool option"
  style_module :: "ModuleAttr option"
  style_map :: "RawSourceMap option"

record SFCDescriptor =
  desc_script :: "SFCBlock option"
  desc_template :: "SFCBlock option"
  desc_styles :: "SFCStyleBlock list"

record SFCStyleCompileResults =
  result_code :: string
  result_map :: "RawSourceMap option"
  result_errors :: "string list"
  result_modules :: "(string \<times> string) list option"

text \<open>
  \<open>CacheEntry\<close>. \<open>styles\<close> is an array written by index, so it may have holes: a
  hole is \<open>None\<close>.
\<close>

record CacheEntry =
  cached_descriptor :: "SFCDescriptor option"
  cached_template :: "string option"
  cached_script :: "string option"
  cached_styles :: "SFCStyleCompileResults option list"

text \<open>The options that \<open>compileSFCTemplate\<close> and \<open>compileSFCStyle\<close> hand to the compiler.\<close>

record TemplateOptions =
  topt_source :: string
  topt_filename :: string
  topt_inMap :: "RawSourceMap option"
  topt_base :: string
  topt_scopeId :: "string option"
  topt_preprocessLang :: "string option"

record StyleOptions =
  sopt_source :: string
  sopt_filename :: string
  sopt_id :: string
  sopt_scoped :: bool
  sopt_modules :: bool
  sopt_preprocessLang :: "string option"
  sopt_postcss :: "string option"

text \<open>
  What the compile functions import: the three functions of the compiler that
  \<open>resolveCompiler(root)\<close> returns, the script transform, \<open>cachedRead\<close>, \<open>hash_sum\<close>,
  \<open>hmrClientId\<close>, \<open>genSourceMapString\<close>, \<open>loadPostcssConfig\<close> and \<open>path.posix.dirname\<close>.
\<close>

record compilers =
  sfcParse :: "string \<Rightarrow> string \<Rightarrow> string \<Rightarrow> SFCDescriptor \<times> string list"
  compileTemplate :: "string \<Rightarrow> TemplateOptions \<Rightarrow> string \<times> RawSourceMap option \<times> string list"
  compileStyleAsync :: "string \<Rightarrow> StyleOptions \<Rightarrow> SFCStyleCompileResults"
  transform :: "string \<Rightarrow> string \<Rightarrow> string"
  cachedRead :: "string \<Rightarrow> error + string"
  hash_sum :: "string \<Rightarrow> string"
  hmrClientId :: string
  genSourceMapString :: "RawSourceMap option \<Rightarrow> string"
  loadPostcssConfig :: "string \<Rightarrow> string option"
  dirname :: "string \<Rightarrow> string"

text \<open>The calls of imported functions that do work, in the order in which they are made.\<close>

datatype invocation =
    InvCachedRead string
  | InvParse string
  | InvTransform string
  | InvCompileTemplate string
  | InvLoadPostcss string
  | InvCompileStyle string nat

text \<open>
  The state that the compile functions share: \<open>vueCache\<close>, most recently used entry
  first, and the calls made so far.
\<close>

record world =
  vueCache :: "(string \<times> CacheEntry) list"
  invoked :: "invocation list"

section \<open>The composite-component compiler: the cache and the text helpers\<close>

text \<open>
  The cache is an \<open>LRUCache\<close> with \<open>max: 65535\<close>: \<open>get\<close> makes the entry it finds the
  most recent one, \<open>set\<close> puts the entry first and drops what no longer fits.
\<close>

definition lru_get :: "(string \<times> CacheEntry) list \<Rightarrow> string \<Rightarrow> CacheEntry option \<times> (string \<times> CacheEntry) list" where
  "lru_get c k =
     (case map_of c k of
        None \<Rightarrow> (None, c)
      | Some v \<Rightarrow> (Some v, (k, v) # filter (\<lambda>(k', v'). k' \<noteq> k) c))"

definition lru_set :: "(string \<times> CacheEntry) list \<Rightarrow> string \<Rightarrow> CacheEntry \<Rightarrow> (string \<times> CacheEntry) list" where
  "lru_set c k v = take 65535 ((k, v) # filter (\<lambda>(k', v'). k' \<noteq> k) c)"

text \<open>\<open>cached || { styles: [] }\<close>.\<close>

definition orFresh :: "CacheEntry option \<Rightarrow> CacheEntry" where
  "orFresh cached =
     (case cached of
        Some entry \<Rightarrow> entry
      | None \<Rightarrow> \<lparr> cached_descriptor = None, cached_template = None, cached_script = None,
                  cached_styles = [] \<rparr>)"

text \<open>A string is truthy when it is not empty; an absent field is falsy.\<close>

definition truthy :: "string option \<Rightarrow> bool" where
  "truthy s = (case s of None \<Rightarrow> False | Some t \<Rightarrow> t \<noteq> [])"

text \<open>\<open>styles[index] = result\<close>: an index past the end leaves holes before it.\<close>

definition setIndex :: "'a option list \<Rightarrow> nat \<Rightarrow> 'a \<Rightarrow> 'a option list" where
  "setIndex xs i v =
     (if i < length xs then xs[i := Some v] else xs @ replicate (i - length xs) None @ [Some v])"

text \<open>\<open>styles[index]\<close>: a hole or an index past the end reads \<open>undefined\<close>.\<close>

definition getIndex :: "'a option list \<Rightarrow> nat \<Rightarrow> 'a option" where
  "getIndex xs i = (if i < length xs then xs ! i else None)"

text \<open>A number in a template literal: its decimal digits.\<close>

definition digit :: "nat \<Rightarrow> char" where
  "digit d = ''0123456789'' ! d"

fun show_nat :: "nat \<Rightarrow> string" where
  "show_nat n = (if n < 10 then [digit n] else show_nat (n div 10) @ [digit (n mod 10)])"

text \<open>\<open>JSON.stringify\<close> of a string: quoted, with the escapes of JSON.\<close>

definition hexDigit :: "nat \<Rightarrow> char" where
  "hexDigit d = ''0123456789abcdef'' ! d"

definition jsonEscape :: "char \<Rightarrow> string" where
  "jsonEscape c =
     (if c = CHR 0x22 then [CHR 0x5C, CHR 0x22]
      else if c = CHR 0x5C then [CHR 0x5C, CHR 0x5C]
      else if c = CHR 0x08 then [CHR 0x5C, CHR ''b'']
      else if c = CHR 0x0C then [CHR 0x5C, CHR ''f'']
      else if c = CHR 0x0A then [CHR 0x5C, CHR ''n'']
      else if c = CHR 0x0D then [CHR 0x5C, CHR ''r'']
      else if c = CHR 0x09 then [CHR 0x5C, CHR ''t'']
      else if (of_char c :: nat) < 32
        then [CHR 0x5C, CHR ''u'', CHR ''0'', CHR ''0'',
              hexDigit (of_char c div 16), hexDigit (of_char c mod 16)]
      else [c])"

definition stringify :: "string \<Rightarrow> string" where
  "stringify s = CHR 0x22 # concat (map jsonEscape s) @ [CHR 0x22]"

text \<open>
  \<open>replace\<close> with a string pattern: the first occurrence only. The replacement of
  the one call, \<open>const __script =\<close>, has no \<open>$\<close> in it, so it is taken literally.
\<close>

fun replace :: "string \<Rightarrow> string \<Rightarrow> string \<Rightarrow> string" where
  "replace pat rep [] = (if pat = [] then rep else [])"
| "replace pat rep (c # cs) =
     (if prefix pat (c # cs) then rep @ drop (length pat) (c # cs) else c # replace pat rep cs)"

section \<open>The composite-component compiler: the compile functions\<close>

text \<open>
  Each function runs to its end before another starts. What a function prints
  about the errors of the compiler (\<open>console.error\<close>, \<open>debug\<close>) changes neither what
  it returns nor the cache, and is left out.
\<close>

datatype content = NoContent | Text string | Buffer string

text \<open>\<open>!content\<close>, and the text of \<open>content\<close>.\<close>

definition noContent :: "content \<Rightarrow> bool" where
  "noContent c = (case c of NoContent \<Rightarrow> True | Text t \<Rightarrow> t = [] | Buffer b \<Rightarrow> False)"

definition contentText :: "content \<Rightarrow> string" where
  "contentText c = (case c of NoContent \<Rightarrow> [] | Text t \<Rightarrow> t | Buffer b \<Rightarrow> b)"

definition parseSFC :: "compilers \<Rightarrow> string \<Rightarrow> string \<Rightarrow> content \<Rightarrow> world \<Rightarrow> SFCDescriptor option \<times> world" where
  "parseSFC x root filename content w =
     (let (cached, c1) = lru_get (vueCache w) filename;
          w1 = w\<lparr>vueCache := c1\<rparr>
      in if cached \<noteq> None \<and> cached_descriptor (the cached) \<noteq> None
         then (cached_descriptor (the cached), w1)
         else
           let (loaded, w2) =
                 (if noContent content
                  then (case cachedRead x filename of
                          Inl err \<Rightarrow> (None, w1\<lparr>invoked := invoked w1 @ [InvCachedRead filename]\<rparr>)
                        | Inr t \<Rightarrow> (Some t, w1\<lparr>invoked := invoked w1 @ [InvCachedRead filename]\<rparr>))
                  else (Some (contentText content), w1))
           in (case loaded of
                 None \<Rightarrow> (None, w2)
               | Some t \<Rightarrow>
                   let (descriptor, errors) = sfcParse x root t filename;
                       entry = (orFresh cached)\<lparr>cached_descriptor := Some descriptor\<rparr>
                   in (Some descriptor,
                       w2\<lparr>vueCache := lru_set (vueCache w2) filename entry,
                          invoked := invoked w2 @ [InvParse filename]\<rparr>)))"

text \<open>\<open>if (s.scoped)\<close> and \<open>if (s.module)\<close>.\<close>

definition isScoped :: "SFCStyleBlock \<Rightarrow> bool" where
  "isScoped s = (style_scoped s = Some True)"

definition isModule :: "SFCStyleBlock \<Rightarrow> bool" where
  "isModule s =
     (case style_module s of
        None \<Rightarrow> False
      | Some (ModuleFlag b) \<Rightarrow> b
      | Some (ModuleName nm) \<Rightarrow> nm \<noteq> [])"

text \<open>\<open>typeof s.module === "string" ? s.module : "$style"\<close>.\<close>

definition moduleName :: "SFCStyleBlock \<Rightarrow> string" where
  "moduleName s = (case style_module s of Some (ModuleName nm) \<Rightarrow> nm | _ \<Rightarrow> ''$style'')"

text \<open>
  The generated code is built by appending: the model keeps the list of the pieces
  appended, in order, and the code is their concatenation.

  One round of the loop over the styles: the pieces so far, \<open>hasScoped\<close> and
  \<open>hasCSSModules\<close>, then the style at index \<open>i\<close>.
\<close>

definition styleStep :: "string \<Rightarrow> string \<Rightarrow> string list \<times> bool \<times> bool \<Rightarrow> nat \<times> SFCStyleBlock \<Rightarrow> string list \<times> bool \<times> bool" where
  "styleStep publicPath ident acc is =
     (let (code, hasScoped, hasCSSModules) = acc;
          (i, s) = is;
          styleRequest = publicPath @ ''?type=style&index='' @ show_nat i;
          hasScoped1 = (hasScoped \<or> isScoped s);
          (code1, hasCSSModules1) =
            (if isModule s then
               let code0 = (if \<not> hasCSSModules
                            then code @ [''\<newline>const __cssModules = __script.__cssModules = {}'']
                            else code);
                   styleVar = ''__style'' @ show_nat i
               in (code0
                     @ [''\<newline>import '' @ styleVar @ '' from '' @ stringify (styleRequest @ ''&module'')]
                     @ [''\<newline>__cssModules['' @ stringify (moduleName s) @ ''] = '' @ styleVar],
                   True)
             else (code, hasCSSModules))
      in (code1 @ [''\<newline>updateStyle(\"'' @ ident @ ''-'' @ show_nat i @ ''\", ''
                    @ stringify styleRequest @ '')''],
          hasScoped1, hasCSSModules1))"

text \<open>
  The pieces appended in the block \<open>if (descriptor.styles)\<close>. \<open>descriptor.styles\<close> is
  an array, which is truthy also when empty.
\<close>

definition styleWiring :: "compilers \<Rightarrow> string \<Rightarrow> SFCStyleBlock list \<Rightarrow> string list" where
  "styleWiring x publicPath sts =
     (let ident = hash_sum x publicPath;
          (code, hasScoped, hasCSSModules) =
            foldl (styleStep publicPath ident)
              ([''\<newline>import { updateStyle } from \"'' @ hmrClientId x @ ''\"\<newline>''], False, False)
              (enumerate 0 sts)
      in if hasScoped then code @ [''\<newline>__script.__scopeId = \"data-v-'' @ ident @ ''\"''] else code)"

text \<open>The pieces of the whole module, given the script content after its transform.\<close>

definition mainPieces :: "compilers \<Rightarrow> SFCDescriptor \<Rightarrow> string \<Rightarrow> string \<Rightarrow> string option \<Rightarrow> string list" where
  "mainPieces x descriptor filePath publicPath scriptContent =
     (case scriptContent of
        Some c \<Rightarrow> [replace ''export default'' ''const __script ='' c]
      | None \<Rightarrow> [''const __script = {}''])
     @ styleWiring x publicPath (desc_styles descriptor)
     @ (if desc_template descriptor \<noteq> None
        then [''\<newline>import { render as __render } from '' @ stringify (publicPath @ ''?type=template''),
              ''\<newline>__script.render = __render'']
        else [])
     @ [''\<newline>__script.__hmrId = '' @ stringify publicPath,
        ''\<newline>__script.__file = '' @ stringify filePath,
        ''\<newline>export default __script'']
     @ (case desc_script descriptor of
          Some scr \<Rightarrow> [genSourceMapString x (block_map scr)]
        | None \<Rightarrow> [])"

definition compileSFCMain :: "compilers \<Rightarrow> SFCDescriptor \<Rightarrow> string \<Rightarrow> string \<Rightarrow> world \<Rightarrow> string \<times> world" where
  "compileSFCMain x descriptor filePath publicPath w =
     (let (cached, c1) = lru_get (vueCache w) filePath;
          w1 = w\<lparr>vueCache := c1\<rparr>
      in if cached \<noteq> None \<and> truthy (cached_script (the cached))
         then (the (cached_script (the cached)), w1)
         else
           let (scriptContent, w2) =
                 (case desc_script descriptor of
                    None \<Rightarrow> (None, w1)
                  | Some scr \<Rightarrow>
                      if block_lang scr = Some ''ts''
                      then (Some (transform x (block_content scr) publicPath),
                            w1\<lparr>invoked := invoked w1 @ [InvTransform publicPath]\<rparr>)
                      else (Some (block_content scr), w1));
               code = concat (mainPieces x descriptor filePath publicPath scriptContent);
               entry = (orFresh cached)\<lparr>cached_script := Some code\<rparr>
           in (code, w2\<lparr>vueCache := lru_set (vueCache w2) filePath entry\<rparr>))"

definition compileSFCTemplate :: "compilers \<Rightarrow> string \<Rightarrow> SFCBlock \<Rightarrow> string \<Rightarrow> string \<Rightarrow> bool \<Rightarrow> world \<Rightarrow> string \<times> world" where
  "compileSFCTemplate x root tmpl filename publicPath scoped w =
     (let (cached, c1) = lru_get (vueCache w) filename;
          w1 = w\<lparr>vueCache := c1\<rparr>
      in if cached \<noteq> None \<and> truthy (cached_template (the cached))
         then (the (cached_template (the cached)), w1)
         else
           let (code, m, errors) =
                 compileTemplate x root
                   \<lparr> topt_source = block_content tmpl, topt_filename = filename,
                     topt_inMap = block_map tmpl, topt_base = dirname x publicPath,
                     topt_scopeId = (if scoped then Some (''data-v-'' @ hash_sum x publicPath) else None),
                     topt_preprocessLang = block_lang tmpl \<rparr>;
               finalCode = code @ genSourceMapString x m;
               entry = (orFresh cached)\<lparr>cached_template := Some finalCode\<rparr>
           in (finalCode,
               w1\<lparr>vueCache := lru_set (vueCache w1) filename entry,
                  invoked := invoked w1 @ [InvCompileTemplate filename]\<rparr>))"

definition compileSFCStyle :: "compilers \<Rightarrow> string \<Rightarrow> SFCStyleBlock \<Rightarrow> nat \<Rightarrow> string \<Rightarrow> string \<Rightarrow> world \<Rightarrow> SFCStyleCompileResults \<times> world" where
  "compileSFCStyle x root style index filename publicPath w =
     (let (cached, c1) = lru_get (vueCache w) filename;
          w1 = w\<lparr>vueCache := c1\<rparr>;
          cachedEntry = (case cached of None \<Rightarrow> None | Some entry \<Rightarrow> getIndex (cached_styles entry) index)
      in (case cachedEntry of
            Some r \<Rightarrow> (r, w1)
          | None \<Rightarrow>
              let ident = hash_sum x publicPath;
                  postcssConfig = loadPostcssConfig x root;
                  r = compileStyleAsync x root
                        \<lparr> sopt_source = style_content style, sopt_filename = filename,
                          sopt_id = ''data-v-'' @ ident,
                          sopt_scoped = (style_scoped style \<noteq> None),
                          sopt_modules = (style_module style \<noteq> None),
                          sopt_preprocessLang = style_lang style,
                          sopt_postcss = postcssConfig \<rparr>;
                  entry = (orFresh cached)
                            \<lparr>cached_styles := setIndex (cached_styles (orFresh cached)) index r\<rparr>
              in (r, w1\<lparr>vueCache := lru_set (vueCache w1) filename entry,
                        invoked := invoked w1 @ [InvLoadPostcss root, InvCompileStyle filename index]\<rparr>)))"


section \<open>A sample project\<close>

text \<open>
  A small project to run \<open>parse\<close> on. The resolver knows the files below by their
  canonical path and names each by the path without its leading slash; the content
  source has every file but \<open>missing.ts\<close>. The composite parser hands the raw
  content on as the script code, the transforms for \<open>ts\<close> and \<open>js\<close> return their
  input, and the extractor knows the import statements that occur in the project:
  it finds no import in any other code, the empty code included.
\<close>

definition demoFiles :: "(string \<times> string) list" where
  "demoFiles =
     [(''main.ts'', ''import \"./util.ts\"''),
      (''util.ts'', ''export {}''),
      (''main.vue'', ''import \"./A.vue\"; import \"./B.vue\"''),
      (''A.vue'', ''import \"./c.ts\"''),
      (''B.vue'', ''import \"vue\"''),
      (''c.ts'', ''export {}''),
      (''a.vue'', ''import \"./b.vue\"''),
      (''b.vue'', ''import \"./a.vue\"''),
      (''notes.md'', ''# notes'')]"

definition demoResolver :: ModuleResolver where
  "demoResolver spec importer =
     (if drop 1 spec \<in> set (''missing.ts'' # map fst demoFiles) \<and> take 1 spec = ''/''
      then Inr \<lparr> info_name = drop 1 spec, info_path = spec, info_module = False \<rparr>
      else Inl ResolutionError)"

definition demoFileCache :: "string \<Rightarrow> error + string" where
  "demoFileCache nm = (case map_of demoFiles nm of None \<Rightarrow> Inl NotFound | Some content \<Rightarrow> Inr content)"

definition demoEdge :: "string \<Rightarrow> string \<Rightarrow> bool \<Rightarrow> ZipeDependency" where
  "demoEdge spec target ext =
     \<lparr> dep_module = spec, importPath = spec, importLine = ''import \"'' @ spec @ ''\"'',
       info = \<lparr> info_name = drop 1 target, info_path = target, info_module = ext \<rparr>,
       dynamic = False \<rparr>"

definition demoExtract :: "string \<Rightarrow> string \<Rightarrow> ModuleResolver \<Rightarrow> ZipeDependency list \<times> string list" where
  "demoExtract c nm r =
     (if c = ''import \"./util.ts\"'' then ([demoEdge ''./util.ts'' ''/util.ts'' False], [])
      else if c = ''import \"./A.vue\"; import \"./B.vue\"''
        then ([demoEdge ''./A.vue'' ''/A.vue'' False, demoEdge ''./B.vue'' ''/B.vue'' False], [])
      else if c = ''import \"./c.ts\"'' then ([demoEdge ''./c.ts'' ''/c.ts'' False], [])
      else if c = ''import \"vue\"'' then ([demoEdge ''vue'' ''/node_modules/vue'' True], [])
      else if c = ''import \"./b.vue\"'' then ([demoEdge ''./b.vue'' ''/b.vue'' False], [])
      else if c = ''import \"./a.vue\"'' then ([demoEdge ''./a.vue'' ''/a.vue'' False], [])
      else ([], []))"

definition demoSfcParser :: "string \<Rightarrow> string \<Rightarrow> (string \<Rightarrow> ZipeScriptTransform option) \<Rightarrow> Sfc" where
  "demoSfcParser content filePath ts =
     \<lparr> scopeId = None,
       styles = \<lparr> styles_code = [], styles_map = None, styles_modules = None \<rparr>,
       template = \<lparr> template_code = [], template_map = None \<rparr>,
       script = \<lparr> script_code = content, script_map = None,
                  script_dependencies = [], script_exports = [] \<rparr> \<rparr>"

definition demoTransformers :: "string \<Rightarrow> ZipeScriptTransform option" where
  "demoTransformers ext =
     (if ext = ''ts'' \<or> ext = ''js'' then Some (\<lambda>content filePath. (content, None)) else None)"

text \<open>The last segment of a path, and its extension from the last dot on.\<close>

definition demoBasename :: "string \<Rightarrow> string" where
  "demoBasename p = rev (takeWhile (\<lambda>c. c \<noteq> CHR ''/'') (rev p))"

definition demoExtname :: "string \<Rightarrow> string" where
  "demoExtname p =
     (let seg = demoBasename p; suffix = rev (takeWhile (\<lambda>c. c \<noteq> CHR ''.'') (rev seg))
      in if length seg \<le> length suffix + 1 then [] else CHR ''.'' # suffix)"

text \<open>In the sample run, the first sub-resolution of the entry settles after the others.\<close>

definition demo :: env where
  "demo = \<lparr> resolver = demoResolver, fileCache = demoFileCache, sfcParser = demoSfcParser,
            transformers = demoTransformers, parseImportsExports = demoExtract,
            basename = demoBasename, extname = demoExtname,
            settle = (\<lambda>pos. if pos = [0] then 1 else 0) \<rparr>"





section \<open>A sample composite file\<close>

text \<open>
  Stand-ins for the compiler and the other imports, to run the compile functions
  on. The template compiler returns no code for an empty template; no file can be
  read, no source map is produced, and every path hashes to the same identifier.
\<close>

definition demoStyle :: "bool option \<Rightarrow> ModuleAttr option \<Rightarrow> SFCStyleBlock" where
  "demoStyle sc m =
     \<lparr> style_content = ''p { color: red }'', style_lang = None, style_scoped = sc,
       style_module = m, style_map = None \<rparr>"

definition demoDescriptor :: "SFCStyleBlock list \<Rightarrow> SFCDescriptor" where
  "demoDescriptor sts =
     \<lparr> desc_script = Some \<lparr> block_content = ''export default {}'', block_lang = None, block_map = None \<rparr>,
       desc_template = Some \<lparr> block_content = ''<p>hi</p>'', block_lang = None, block_map = None \<rparr>,
       desc_styles = sts \<rparr>"

definition demoCompilers :: compilers where
  "demoCompilers =
     \<lparr> sfcParse = (\<lambda>root text filename. (demoDescriptor [demoStyle (Some True) None], [])),
       compileTemplate = (\<lambda>root opts.
          if topt_source opts = [] then ([], None, []) else (''export function render() {}'', None, [])),
       compileStyleAsync = (\<lambda>root opts.
          \<lparr> result_code = sopt_source opts, result_map = None, result_errors = [],
            result_modules = None \<rparr>),
       transform = (\<lambda>text publicPath. text),
       cachedRead = (\<lambda>filename. Inl NotFound),
       hash_sum = (\<lambda>p. ''7a7a37b1''),
       hmrClientId = ''/vite/hmr'',
       genSourceMapString = (\<lambda>m. []),
       loadPostcssConfig = (\<lambda>root. None),
       dirname = (\<lambda>p. ''/src'') \<rparr>"

definition emptyWorld :: world where
  "emptyWorld = \<lparr> vueCache = [], invoked = [] \<rparr>"

text \<open>A cache that holds every block of \<open>/src/App.vue\<close>.\<close>

definition warmEntry :: CacheEntry where
  "warmEntry =
     \<lparr> cached_descriptor = Some (demoDescriptor [demoStyle (Some True) None]),
       cached_template = Some ''export function render() {}'',
       cached_script = Some ''const __script = {}'',
       cached_styles = [Some \<lparr> result_code = ''p { color: red }'', result_map = None,
                               result_errors = [], result_modules = None \<rparr>] \<rparr>"

definition warmWorld :: world where
  "warmWorld = \<lparr> vueCache = [(''/src/App.vue'', warmEntry)], invoked = [] \<rparr>"

text \<open>A template block with nothing in it.\<close>

definition emptyTemplate :: SFCBlock where
  "emptyTemplate = \<lparr> block_content = [], block_lang = None, block_map = None \<rparr>"


section \<open>Reading a run\<close>

text \<open>The node that a run returns, if it returns one.\<close>

definition nodeOf :: "((error + ZipeModule) \<times> event list) option \<Rightarrow> ZipeModule option" where
  "nodeOf r = (case r of Some (Inr node, evs) \<Rightarrow> Some node | _ \<Rightarrow> None)"


text \<open>The calls among the events: position, \<open>filePath\<close> and \<open>importer\<close> of each.\<close>

definition callsOf :: "event list \<Rightarrow> (nat list \<times> string \<times> string) list" where
  "callsOf evs = [(p, a, b). Call p a b \<leftarrow> evs]"

text \<open>The calls that a call at position \<open>pos\<close> makes itself: those one level below it.\<close>

definition directCalls :: "nat list \<Rightarrow> event list \<Rightarrow> (nat list \<times> string \<times> string) list" where
  "directCalls pos evs = filter (\<lambda>c. length (fst c) = Suc (length pos)) (callsOf evs)"

text \<open>A call of a compile function that returns \<open>v\<close> and invokes nothing.\<close>

definition quiet :: "'a \<times> world \<Rightarrow> 'a \<Rightarrow> world \<Rightarrow> bool" where
  "quiet r v w \<longleftrightarrow> fst r = v \<and> invoked (snd r) = invoked w"



section \<open>Properties of \<open>parse\<close>\<close>


lemma those_eq_Some_iff: "those xs = Some ys \<longleftrightarrow> xs = map Some ys"
  by (induction xs arbitrary: ys) (auto split: option.splits)



lemma parse_seeded_None:
  "seeded e filePath importer = None \<Longrightarrow>
   \<exists>err. parse (Suc n) e pos filePath importer = Some (Inl err, ownEvents e pos filePath importer)"
  by (auto simp: seeded_def ownEvents_def Let_def split: sum.splits)

lemma parse_seeded_Some:
  "seeded e filePath importer = Some item \<Longrightarrow>
   parse (Suc n) e pos filePath importer =
     (case those (subresults n e pos item) of
        None \<Rightarrow> None
      | Some rs \<Rightarrow>
          Some (awaitAll item (settled e pos (zip (map fst (children item)) (map fst rs))),
                ownEvents e pos filePath importer @ concat (map snd rs)))"
  by (auto simp: subresults_def seeded_def ownEvents_def callOf_def Let_def split: sum.splits prod.splits option.splits)


declare parse.simps(2) [simp del]





lemma subcallsE:
  assumes "c' \<in> set (subcalls e c)"
  obtains item i d where "seeded e (fst c) (snd c) = Some item" "(i, d) \<in> set (children item)" "c' = callOf item d"
proof (cases "seeded e (fst c) (snd c)")
  case None
  with assms show ?thesis by (simp add: subcalls_def)
next
  case (Some item)
  with assms obtain x where x: "x \<in> set (children item)" and c': "c' = (case x of (i, d) \<Rightarrow> callOf item d)"
    by (auto simp: subcalls_def)
  obtain i d where "x = (i, d)" by (cases x)
  with x c' Some that show ?thesis by simp
qed





lemma compileItem_keeps:
  "fullDependencies (fst (compileItem e filePath item)) = fullDependencies item"
  "dependenciesPromise (fst (compileItem e filePath item)) = dependenciesPromise item"
  "module (fst (compileItem e filePath item)) = module item"
  "extra (fst (compileItem e filePath item)) = extra item"
  "rawContent (fst (compileItem e filePath item)) = rawContent item"
  by (auto simp: compileItem_def Let_def split: prod.splits option.splits)

lemma foldl_thenStep:
  "fullDependencies (foldl thenStep item xs) = fullDependencies item @ concat (map fullDependencies xs)"
  "dependencies (foldl thenStep item xs) = dependencies item"
  "dependenciesPromise (foldl thenStep item xs) = dependenciesPromise item"
  "module (foldl thenStep item xs) = module item"
  "code (foldl thenStep item xs) = code item"
  "rawContent (foldl thenStep item xs) = rawContent item"
  by (induction xs arbitrary: item) (simp_all add: thenStep_def)

lemma lefts_map_Inr: "[err. Inl err \<leftarrow> map Inr xs] = []"
  by (induction xs) auto

lemma rights_map_Inr: "[x. Inr x \<leftarrow> map Inr xs] = xs"
  by (induction xs) auto

lemma awaitAll_Inr_iff:
  "awaitAll item outs = Inr node \<longleftrightarrow> (\<exists>xs. outs = map Inr xs \<and> node = foldl thenStep item xs)"
proof
  assume a: "awaitAll item outs = Inr node"
  then have no: "[err. Inl err \<leftarrow> outs] = []" and node: "node = foldl thenStep item [x. Inr x \<leftarrow> outs]"
    by (auto simp: awaitAll_def split: list.splits)
  from no have "outs = map Inr [x. Inr x \<leftarrow> outs]"
    by (induction outs) (auto split: sum.splits)
  with node show "\<exists>xs. outs = map Inr xs \<and> node = foldl thenStep item xs" by blast
next
  assume "\<exists>xs. outs = map Inr xs \<and> node = foldl thenStep item xs"
  then obtain xs where outs: "outs = map Inr xs" and node: "node = foldl thenStep item xs" by blast
  show "awaitAll item outs = Inr node"
    unfolding awaitAll_def outs node
    by (simp only: lefts_map_Inr rights_map_Inr list.case)
qed

lemma insort_key_map: "insort_key k (g x) (map g xs) = map g (insort_key (\<lambda>y. k (g y)) x xs)"
  by (induction xs) auto

lemma sort_key_map: "sort_key k (map g xs) = map g (sort_key (\<lambda>y. k (g y)) xs)"
  by (induction xs) (simp_all add: insort_key_map)

lemma settled_map: "settled e pos (zip is (map f ys)) = map f (settled e pos (zip is ys))"
proof -
  have "zip is (map f ys) = map (\<lambda>(i, y). (i, f y)) (zip is ys)"
    by (simp add: zip_map2)
  then show ?thesis
    by (simp add: settled_def sort_key_map case_prod_unfold)
qed

lemma mset_settled: "mset (settled e pos rs) = mset (map snd rs)"
  unfolding settled_def mset_map by (simp only: mset_sort)

lemma set_settled: "set (settled e pos rs) = snd ` set rs"
  by (simp add: settled_def)

lemma length_settled: "length (settled e pos rs) = length rs"
  by (simp add: settled_def)

lemma length_subresults: "length (subresults n e pos item) = length (children item)"
  by (simp add: subresults_def)

lemma all_Inr_map:
  assumes "\<forall>r\<in>set rs. \<exists>x. fst r = Inr x"
  shows "\<exists>ps. rs = map (\<lambda>(x, y). (Inr x, y)) ps"
  using assms
proof (induction rs)
  case Nil
  then show ?case by simp
next
  case (Cons r rs)
  then obtain ps where ps: "rs = map (\<lambda>(x, y). (Inr x, y)) ps" by auto
  from Cons.prems obtain x where "fst r = Inr x" by auto
  then have "r = (Inr x, snd r)" by (cases r) simp
  with ps have "r # rs = map (\<lambda>(x, y). (Inr x, y)) ((x, snd r) # ps)" by simp
  then show ?case ..
qed

lemma parse_Inr_cases:
  assumes "parse (Suc n) e pos filePath importer = Some (Inr node, evs)"
  obtains item ps where "seeded e filePath importer = Some item"
    and "subresults n e pos item = map (\<lambda>(x, evs'). Some (Inr x, evs')) ps"
    and "node = foldl thenStep item (settled e pos (zip (map fst (children item)) (map fst ps)))"
    and "evs = ownEvents e pos filePath importer @ concat (map snd ps)"
proof (cases "seeded e filePath importer")
  case None
  from parse_seeded_None [OF None, of n pos] assms show ?thesis by auto
next
  case (Some item)
  from assms obtain rs where rs: "those (subresults n e pos item) = Some rs"
    and aw: "awaitAll item (settled e pos (zip (map fst (children item)) (map fst rs))) = Inr node"
    and evs: "evs = ownEvents e pos filePath importer @ concat (map snd rs)"
    by (auto simp: parse_seeded_Some [OF Some] split: option.splits)
  from rs have sub: "subresults n e pos item = map Some rs"
    by (simp add: those_eq_Some_iff)
  then have len: "length rs = length (children item)"
    using length_subresults [of n e pos item] by simp
  from aw obtain xs where xs: "settled e pos (zip (map fst (children item)) (map fst rs)) = map Inr xs"
    and node: "node = foldl thenStep item xs"
    by (auto simp: awaitAll_Inr_iff)
  have "set (map fst rs) = snd ` set (zip (map fst (children item)) (map fst rs))"
    using len by (metis length_map map_snd_zip set_map)
  also have "\<dots> = set (settled e pos (zip (map fst (children item)) (map fst rs)))"
    by (simp only: set_settled)
  also have "\<dots> = set (map Inr xs)"
    by (simp only: xs)
  finally have "\<forall>r\<in>set rs. \<exists>x. fst r = Inr x" by auto
  then obtain ps where ps: "rs = map (\<lambda>(x, y). (Inr x, y)) ps"
    using all_Inr_map by blast
  have fst_rs: "map fst rs = map Inr (map fst ps)" and snd_rs: "map snd rs = map snd ps"
    by (simp_all add: ps case_prod_unfold comp_def)
  have "map Inr (settled e pos (zip (map fst (children item)) (map fst ps)))
      = settled e pos (zip (map fst (children item)) (map Inr (map fst ps)))"
    by (rule settled_map [symmetric])
  also have "\<dots> = settled e pos (zip (map fst (children item)) (map fst rs))"
    by (simp only: fst_rs)
  also note xs
  finally have "xs = settled e pos (zip (map fst (children item)) (map fst ps))"
    by (simp add: inj_map_eq_map [OF inj_Inr])
  with node have n': "node = foldl thenStep item (settled e pos (zip (map fst (children item)) (map fst ps)))"
    by simp
  have "subresults n e pos item = map (\<lambda>(x, evs'). Some (Inr x, evs')) ps"
    by (simp add: sub ps case_prod_unfold comp_def)
  from that [OF Some this n'] evs snd_rs show ?thesis by simp
qed


lemma newItem_fields:
  "rawContent (newItem nm m ext) = []"
  "dependencies (newItem nm m ext) = []"
  "fullDependencies (newItem nm m ext) = []"
  "code (newItem nm m ext) = None"
  "dependenciesPromise (newItem nm m ext) = None"
  "module (newItem nm m ext) = m"
  "extension (newItem nm m ext) = ext"
  "name (newItem nm m ext) = nm"
  by (simp_all add: newItem_def)

lemma seeded_fields:
  assumes "seeded e filePath importer = Some item"
  shows "fullDependencies item = dependencies item"
    and "dependenciesPromise item = None"
    and "resolver e filePath importer = Inr (module item)"
    and "fileCache e (info_name (module item)) = Inr (rawContent item)"
  using assms
  by (auto simp: seeded_def Let_def compileItem_keeps newItem_fields split: sum.splits)

lemmas demo_defs = demo_def demoResolver_def demoFileCache_def demoFiles_def demoEdge_def
  demoExtract_def demoSfcParser_def demoTransformers_def demoBasename_def demoExtname_def

text \<open>
  In the branch of the plain files the extractor is given the script code of the
  composite sub-result, which no step of that branch has set.
\<close>

lemma plain_branch_reads_empty_code:
  assumes "extension item \<noteq> ''vue''" and "transformers e (extension item) = Some t"
    and "script_code (script (sfc item)) = []"
  shows "dependencies (fst (compileItem e filePath item)) =
           dependencies item @ fst (parseImportsExports e [] (info_name (module item)) (resolver e))"
    and "code (fst (compileItem e filePath item)) = Some (fst (t (rawContent item) filePath))"
  using assms by (simp_all add: compileItem_def Let_def split: prod.splits)


lemma subresults_nth:
  assumes "subresults n e pos item = map (\<lambda>(x, evs'). Some (Inr x, evs')) ps"
  shows "length ps = length (children item)"
    and "k < length (children item) \<Longrightarrow>
         parse n e (pos @ [fst (children item ! k)]) (fst (callOf item (snd (children item ! k))))
           (snd (callOf item (snd (children item ! k)))) = Some (Inr (fst (ps ! k)), snd (ps ! k))"
proof -
  from assms have "length (subresults n e pos item) = length ps" by simp
  then show len: "length ps = length (children item)" by (simp add: subresults_def)
  assume k: "k < length (children item)"
  from assms have "subresults n e pos item ! k = map (\<lambda>(x, evs'). Some (Inr x, evs')) ps ! k" by simp
  with k len show "parse n e (pos @ [fst (children item ! k)]) (fst (callOf item (snd (children item ! k))))
           (snd (callOf item (snd (children item ! k)))) = Some (Inr (fst (ps ! k)), snd (ps ! k))"
    by (simp add: subresults_def case_prod_unfold)
qed







section \<open>The call graph of the sample project\<close>

lemmas demo_run = seeded_def subcalls_def compileItem_def newItem_def children_def callOf_def Let_def
  thenStep_def settled_def awaitAll_def

lemma demo_subcalls:
  "subcalls demo (''/main.vue'', []) = [(''/A.vue'', ''/main.vue''), (''/B.vue'', ''/main.vue'')]"
  "subcalls demo (''/A.vue'', ''/main.vue'') = [(''/c.ts'', ''/A.vue'')]"
  "subcalls demo (''/B.vue'', ''/main.vue'') = []"
  "subcalls demo (''/c.ts'', ''/A.vue'') = []"
  "subcalls demo (''/a.vue'', []) = [(''/b.vue'', ''/a.vue'')]"
  "subcalls demo (''/b.vue'', ''/a.vue'') = [(''/a.vue'', ''/b.vue'')]"
  "subcalls demo (''/a.vue'', ''/b.vue'') = [(''/b.vue'', ''/a.vue'')]"
  by (simp_all add: demo_run demo_defs)

lemma demo_seeded:
  "seeded demo ''/main.vue'' [] \<noteq> None"
  "seeded demo ''/A.vue'' ''/main.vue'' \<noteq> None"
  "seeded demo ''/B.vue'' ''/main.vue'' \<noteq> None"
  "seeded demo ''/c.ts'' ''/A.vue'' \<noteq> None"
  by (simp_all add: demo_run demo_defs)









lemmas demo_eval = parse.simps eval_nat_numeral demo_defs demo_run nodeOf_def


lemma demo_reaches_c: "reachable demo (''/main.vue'', []) (demoEdge ''./c.ts'' ''/c.ts'' False)"
proof (rule reachable.indirect)
  show "(''/A.vue'', ''/main.vue'') \<in> set (subcalls demo (''/main.vue'', []))"
    by (simp add: demo_subcalls)
  have "seeded demo ''/A.vue'' ''/main.vue'' = Some (the (seeded demo ''/A.vue'' ''/main.vue''))"
    using demo_seeded(2) by simp
  moreover have "demoEdge ''./c.ts'' ''/c.ts'' False \<in> set (dependencies (the (seeded demo ''/A.vue'' ''/main.vue'')))"
    by (simp add: demo_run demo_defs)
  ultimately show "reachable demo (''/A.vue'', ''/main.vue'') (demoEdge ''./c.ts'' ''/c.ts'' False)"
    by (intro reachable.direct [of demo "(''/A.vue'', ''/main.vue'')"]) simp_all
qed


section \<open>The node that \<open>parse\<close> returns\<close>


lemma set_settled_zip: "length is = length xs \<Longrightarrow> set (settled e pos (zip is xs)) = set xs"
  by (simp add: set_settled flip: set_map)

lemma children_foldl: "children (foldl thenStep item xs) = children item"
  by (simp add: children_def foldl_thenStep)

lemma callOf_foldl: "callOf (foldl thenStep item xs) d = callOf item d"
  by (simp add: callOf_def foldl_thenStep)

text \<open>The shape of a run that returns a node.\<close>

lemma parse_node_shape:
  assumes "parse (Suc n) e pos filePath importer = Some (Inr node, evs)"
  obtains item xs where "seeded e filePath importer = Some item"
    and "length xs = length (children node)"
    and "\<And>k. k < length xs \<Longrightarrow>
           nodeOf (parse n e (pos @ [fst (children node ! k)]) (fst (callOf node (snd (children node ! k))))
             (snd (callOf node (snd (children node ! k))))) = Some (xs ! k)"
    and "node = foldl thenStep item (settled e pos (zip (map fst (children node)) xs))"
    and "dependencies node = dependencies item"
    and "fullDependencies item = dependencies item"
proof -
  from assms obtain item ps where item: "seeded e filePath importer = Some item"
    and sub: "subresults n e pos item = map (\<lambda>(x, evs'). Some (Inr x, evs')) ps"
    and node: "node = foldl thenStep item (settled e pos (zip (map fst (children item)) (map fst ps)))"
    by (rule parse_Inr_cases)
  have ch: "children node = children item" and co: "callOf node = callOf item"
    unfolding node by (simp_all add: children_foldl callOf_foldl fun_eq_iff)
  have 1: "length (map fst ps) = length (children node)"
    using subresults_nth(1) [OF sub] ch by simp
  have 2: "nodeOf (parse n e (pos @ [fst (children node ! k)]) (fst (callOf node (snd (children node ! k))))
             (snd (callOf node (snd (children node ! k))))) = Some (map fst ps ! k)"
    if "k < length (map fst ps)" for k
    using subresults_nth(2) [OF sub, of k] that 1 unfolding ch co
    by (simp add: nodeOf_def)
  have 3: "node = foldl thenStep item (settled e pos (zip (map fst (children node)) (map fst ps)))"
    using node ch by simp
  have 4: "dependencies node = dependencies item"
    unfolding node by (simp add: foldl_thenStep)
  from that [OF item 1 2 3 4 seeded_fields(1) [OF item]] show ?thesis .
qed

lemma nodeOf_Some: "nodeOf r = Some node \<longleftrightarrow> (\<exists>evs. r = Some (Inr node, evs))"
  by (auto simp: nodeOf_def split: option.splits sum.splits)

lemma reachable_in_fullDependencies:
  "reachable e c d \<Longrightarrow> parse n e pos (fst c) (snd c) = Some (Inr node, evs) \<Longrightarrow>
   d \<in> set (fullDependencies node)"
proof (induction arbitrary: n pos node evs rule: reachable.induct)
  case (direct c item d)
  from direct.prems obtain n' where n: "n = Suc n'" by (cases n) auto
  from direct.prems [unfolded n] obtain item' xs where "seeded e (fst c) (snd c) = Some item'"
    and "length xs = length (children node)"
    and "\<And>k. k < length xs \<Longrightarrow>
           nodeOf (parse n' e (pos @ [fst (children node ! k)]) (fst (callOf node (snd (children node ! k))))
             (snd (callOf node (snd (children node ! k))))) = Some (xs ! k)"
    and "node = foldl thenStep item' (settled e pos (zip (map fst (children node)) xs))"
    and "dependencies node = dependencies item'"
    and "fullDependencies item' = dependencies item'"
    by (rule parse_node_shape) (rule that)
  with direct.hyps have "d \<in> set (fullDependencies item')" by simp
  then show ?case
    by (subst \<open>node = foldl thenStep item' (settled e pos (zip (map fst (children node)) xs))\<close>)
      (simp add: foldl_thenStep)
next
  case (indirect c' c d)
  from indirect.prems obtain n' where n: "n = Suc n'" by (cases n) auto
  from indirect.prems [unfolded n] obtain item xs where item: "seeded e (fst c) (snd c) = Some item"
    and len: "length xs = length (children node)"
    and sub: "\<And>k. k < length xs \<Longrightarrow>
           nodeOf (parse n' e (pos @ [fst (children node ! k)]) (fst (callOf node (snd (children node ! k))))
             (snd (callOf node (snd (children node ! k))))) = Some (xs ! k)"
    and node: "node = foldl thenStep item (settled e pos (zip (map fst (children node)) xs))"
    and "dependencies node = dependencies item"
    and "fullDependencies item = dependencies item"
    by (rule parse_node_shape) (rule that)
  have ch: "children node = children item" and co: "callOf node = callOf item"
    by (subst node, simp add: children_foldl callOf_foldl fun_eq_iff)+
  from indirect.hyps(1) item obtain i dep where "(i, dep) \<in> set (children item)" and c': "c' = callOf item dep"
    by (auto elim: subcallsE)
  then obtain k where k: "k < length (children item)" and ck: "children item ! k = (i, dep)"
    by (auto simp: in_set_conv_nth)
  from sub [of k] k len ch co ck c'
  obtain evs' where "parse n' e (pos @ [i]) (fst c') (snd c') = Some (Inr (xs ! k), evs')"
    by (auto simp: nodeOf_Some)
  from indirect.IH [OF this] have "d \<in> set (fullDependencies (xs ! k))" .
  moreover have "xs ! k \<in> set (settled e pos (zip (map fst (children node)) xs))"
    using k len ch by (simp add: set_settled_zip)
  ultimately have "d \<in> set (concat (map fullDependencies (settled e pos (zip (map fst (children node)) xs))))"
    by auto
  then show ?case by (subst node) (simp add: foldl_thenStep)
qed

lemma mset_concat_map_cong:
  "mset ys = mset xs \<Longrightarrow> mset (concat (map f ys)) = mset (concat (map f xs))"
proof -
  assume a: "mset ys = mset xs"
  have "mset (concat (map f zs)) = sum_mset (image_mset (\<lambda>z. mset (f z)) (mset zs))" for zs
    by (induction zs) simp_all
  with a show ?thesis by simp
qed

lemma settled_sorted:
  "sorted (map (\<lambda>i. settle e (pos @ [i])) is) \<Longrightarrow> length is = length xs \<Longrightarrow>
   settled e pos (zip is xs) = xs"
proof -
  assume s: "sorted (map (\<lambda>i. settle e (pos @ [i])) is)" and l: "length is = length xs"
  have "map (\<lambda>(i, r). settle e (pos @ [i])) (zip is xs) = map (\<lambda>i. settle e (pos @ [i])) is"
    using l by (induction "is" xs rule: list_induct2) simp_all
  with s have "sort_key (\<lambda>(i, r). settle e (pos @ [i])) (zip is xs) = zip is xs"
    by (intro sort_key_id_if_sorted) simp
  with l show ?thesis by (simp add: settled_def)
qed


section \<open>The events of a run\<close>

lemma parse_events_cases:
  assumes "parse (Suc n) e pos filePath importer = Some (out, evs)"
  obtains (rejected) "seeded e filePath importer = None" "evs = ownEvents e pos filePath importer"
  | (loaded) item rs where "seeded e filePath importer = Some item"
      "subresults n e pos item = map Some rs"
      "evs = ownEvents e pos filePath importer @ concat (map snd rs)"
proof (cases "seeded e filePath importer")
  case None
  from parse_seeded_None [OF None, of n pos] assms have "evs = ownEvents e pos filePath importer"
    by auto
  with None show ?thesis by (rule rejected)
next
  case (Some item)
  from assms obtain rs where rs: "those (subresults n e pos item) = Some rs"
    and evs: "evs = ownEvents e pos filePath importer @ concat (map snd rs)"
    by (auto simp: parse_seeded_Some [OF Some] split: option.splits)
  from rs have "subresults n e pos item = map Some rs"
    by (simp add: those_eq_Some_iff)
  with Some show ?thesis using evs by (rule loaded)
qed


lemma compileItem_events:
  "ev \<in> set (snd (compileItem e filePath item)) \<Longrightarrow>
   (\<forall>nm. ev \<noteq> FileGet nm) \<and> (\<forall>p a b. ev \<noteq> Call p a b)"
  by (auto simp: compileItem_def Let_def split: if_splits option.splits prod.splits)

lemma ownEvents_shape:
  "ownEvents e p a b = [Call p a b] \<and> (\<exists>err. resolver e a b = Inl err)
   \<or> (\<exists>m tail. resolver e a b = Inr m
        \<and> ownEvents e p a b = Call p a b
             # CacheSet (info_path m) (newItem (basename e (info_name m)) m (drop 1 (extname e (info_path m))))
             # FileGet (info_name m) # tail
        \<and> (\<forall>ev\<in>set tail. (\<forall>nm. ev \<noteq> FileGet nm) \<and> (\<forall>p a b. ev \<noteq> Call p a b)))"
proof (cases "resolver e a b")
  case (Inl err)
  then show ?thesis by (simp add: ownEvents_def)
next
  case (Inr m)
  show ?thesis
  proof (cases "fileCache e (info_name m)")
    case (Inl err)
    with Inr show ?thesis by (simp add: ownEvents_def)
  next
    case content: (Inr content)
    with Inr compileItem_events show ?thesis
      by (simp add: ownEvents_def)
  qed
qed







lemma callsOf_append: "callsOf (xs @ ys) = callsOf xs @ callsOf ys"
  by (simp add: callsOf_def)

lemma callsOf_concat: "callsOf (concat xss) = concat (map callsOf xss)"
  by (induction xss) (simp_all add: callsOf_append, simp add: callsOf_def)

lemma callsOf_none: "\<forall>ev\<in>set evs. \<forall>p a b. ev \<noteq> Call p a b \<Longrightarrow> callsOf evs = []"
  by (induction evs) (auto simp: callsOf_def split: event.splits)

lemma callsOf_ownEvents: "callsOf (ownEvents e p a b) = [(p, a, b)]"
proof -
  from ownEvents_shape [of e p a b] consider "ownEvents e p a b = [Call p a b]"
    | m tail where "ownEvents e p a b = Call p a b
             # CacheSet (info_path m) (newItem (basename e (info_name m)) m (drop 1 (extname e (info_path m))))
             # FileGet (info_name m) # tail" "\<forall>ev\<in>set tail. \<forall>p a b. ev \<noteq> Call p a b"
    by blast
  then show ?thesis
  proof cases
    case 1
    then show ?thesis by (simp add: callsOf_def)
  next
    case 2
    from callsOf_none [OF 2(2)] have "callsOf tail = []" .
    moreover have "callsOf (x # y # z # tail) = callsOf [x, y, z] @ callsOf tail" for x y z
      using callsOf_append [of "[x, y, z]" tail] by simp
    ultimately show ?thesis by (simp add: 2(1) callsOf_def)
  qed
qed

lemma children_mem:
  "(j, d) \<in> set (children item) \<longleftrightarrow>
     j < length (dependencies item) \<and> d = dependencies item ! j \<and> \<not> info_module (info d)"
  by (auto simp: children_def in_set_enumerate_eq)

text \<open>The first call of a run is the call itself; every other one is below it.\<close>

lemma parse_calls:
  "parse n e pos filePath importer = Some (out, evs) \<Longrightarrow>
   \<exists>rest. callsOf evs = (pos, filePath, importer) # rest \<and> (\<forall>c\<in>set rest. strict_prefix pos (fst c))"
proof (induction n arbitrary: pos filePath importer out evs)
  case 0
  then show ?case by simp
next
  case (Suc n)
  from Suc.prems show ?case
  proof (cases rule: parse_events_cases)
    case rejected
    then show ?thesis by (simp add: callsOf_ownEvents)
  next
    case (loaded item rs)
    have "\<forall>c\<in>set (callsOf (snd r)). strict_prefix pos (fst c)" if "r \<in> set rs" for r
    proof -
      from that have "Some r \<in> set (subresults n e pos item)" by (simp add: loaded)
      then obtain i d where "parse n e (pos @ [i]) (fst (callOf item d)) (snd (callOf item d)) = Some (fst r, snd r)"
        by (auto simp: subresults_def)
      from Suc.IH [OF this] obtain rest where "callsOf (snd r) = (pos @ [i], callOf item d) # rest"
        and "\<forall>c\<in>set rest. strict_prefix (pos @ [i]) (fst c)" by auto
      then have "\<forall>c\<in>set (callsOf (snd r)). prefix (pos @ [i]) (fst c)"
        by (auto simp: strict_prefix_def)
      then show ?thesis
        by (auto simp: prefix_def strict_prefix_def)
    qed
    then have "\<forall>c\<in>set (concat (map callsOf (map snd rs))). strict_prefix pos (fst c)"
      by auto
    then show ?thesis
      by (simp add: loaded(3) callsOf_append callsOf_concat callsOf_ownEvents)
  qed
qed

lemma filter_concat_singletons:
  assumes "length xss = length ys" and "\<And>k. k < length ys \<Longrightarrow> filter P (xss ! k) = [ys ! k]"
  shows "filter P (concat xss) = ys"
  using assms
proof (induction xss ys rule: list_induct2)
  case Nil
  then show ?case by simp
next
  case (Cons xs xss y ys)
  from Cons.prems [of 0] have "filter P xs = [y]" by simp
  moreover have "filter P (concat xss) = ys"
  proof (rule Cons.IH)
    fix k assume "k < length ys"
    with Cons.prems [of "Suc k"] show "filter P (xss ! k) = [ys ! k]" by simp
  qed
  ultimately show ?case by simp
qed

lemma parse_directCalls:
  assumes "parse (Suc n) e pos filePath importer = Some (out, evs)"
    and "seeded e filePath importer = Some item"
  shows "directCalls pos evs = map (\<lambda>(j, d). (pos @ [j], callOf item d)) (children item)"
proof -
  from assms(1) obtain rs where sub: "subresults n e pos item = map Some rs"
    and evs: "evs = ownEvents e pos filePath importer @ concat (map snd rs)"
    using assms(2) by (cases rule: parse_events_cases) auto
  let ?P = "\<lambda>c :: nat list \<times> string \<times> string. length (fst c) = Suc (length pos)"
  have len: "length rs = length (children item)"
    using sub length_subresults [of n e pos item] by simp
  have one: "filter ?P (map (callsOf \<circ> snd) rs ! k) = [map (\<lambda>(j, d). (pos @ [j], callOf item d)) (children item) ! k]"
    if "k < length (map (\<lambda>(j, d). (pos @ [j], callOf item d)) (children item))" for k
  proof -
    from that have k: "k < length (children item)" by simp
    obtain j d where jd: "children item ! k = (j, d)" by (cases "children item ! k")
    from sub k len have "subresults n e pos item ! k = Some (rs ! k)" by simp
    with k jd have "parse n e (pos @ [j]) (fst (callOf item d)) (snd (callOf item d)) = Some (fst (rs ! k), snd (rs ! k))"
      by (simp add: subresults_def)
    from parse_calls [OF this] obtain rest where c: "callsOf (snd (rs ! k)) = (pos @ [j], callOf item d) # rest"
      and rest: "\<forall>c\<in>set rest. strict_prefix (pos @ [j]) (fst c)" by auto
    have "\<not> ?P c" if "c \<in> set rest" for c
    proof -
      from rest that have "strict_prefix (pos @ [j]) (fst c)" by blast
      then have "length (pos @ [j]) < length (fst c)" by (rule prefix_length_less)
      then show ?thesis by simp
    qed
    then have "filter ?P rest = []" by (simp add: filter_empty_conv)
    with c k len jd show ?thesis by simp
  qed
  have "filter ?P (concat (map (callsOf \<circ> snd) rs)) = map (\<lambda>(j, d). (pos @ [j], callOf item d)) (children item)"
    by (rule filter_concat_singletons) (simp add: len, rule one)
  then show ?thesis
    by (simp add: directCalls_def evs callsOf_append callsOf_concat callsOf_ownEvents comp_def)
qed

lemma parse_calls_below:
  assumes "parse (Suc n) e pos filePath importer = Some (out, evs)" and "c \<in> set (callsOf evs)"
  shows "fst c = pos \<or> (\<exists>item j d. seeded e filePath importer = Some item \<and> (j, d) \<in> set (children item)
           \<and> prefix (pos @ [j]) (fst c))"
  using assms(1)
proof (cases rule: parse_events_cases)
  case rejected
  with assms(2) show ?thesis by (simp add: callsOf_ownEvents)
next
  case (loaded item rs)
  from assms(2) consider "c = (pos, filePath, importer)" | r where "r \<in> set rs" "c \<in> set (callsOf (snd r))"
    by (auto simp: loaded(3) callsOf_append callsOf_concat callsOf_ownEvents)
  then show ?thesis
  proof cases
    case 1
    then show ?thesis by simp
  next
    case 2
    from 2(1) have "Some r \<in> set (subresults n e pos item)" by (simp add: loaded)
    then obtain j d where mem: "(j, d) \<in> set (children item)"
      and "parse n e (pos @ [j]) (fst (callOf item d)) (snd (callOf item d)) = Some (fst r, snd r)"
      by (auto simp: subresults_def)
    from parse_calls [OF this(2)] 2(2) have "prefix (pos @ [j]) (fst c)"
      by (auto simp: strict_prefix_def)
    with loaded(1) mem show ?thesis by blast
  qed
qed



section \<open>The compile functions and the cache\<close>

declare show_nat.simps [simp del]

lemma map_of_lru_set: "map_of (lru_set c k v) k = Some v"
  by (simp add: lru_set_def)

lemma lru_get_hit:
  "map_of c k = Some v \<Longrightarrow> lru_get c k = (Some v, (k, v) # filter (\<lambda>(k', v'). k' \<noteq> k) c)"
  by (simp add: lru_get_def)

lemma lru_get_lru_set: "fst (lru_get (lru_set c k v) k) = Some v"
  by (simp add: lru_get_def map_of_lru_set)

lemma map_of_lru_get: "map_of (snd (lru_get c k)) k = map_of c k"
  by (auto simp: lru_get_def split: option.splits)

lemma getIndex_setIndex: "getIndex (setIndex xs i v) i = Some v"
  by (simp add: getIndex_def setIndex_def nth_append)

lemma parseSFC_hit:
  assumes "map_of (vueCache w) filename = Some entry" and "cached_descriptor entry = Some d"
  shows "quiet (parseSFC x root filename content w) (Some d) w"
  using assms by (simp add: parseSFC_def quiet_def lru_get_hit)

lemma compileSFCMain_hit:
  assumes "map_of (vueCache w) filePath = Some entry" and "cached_script entry = Some s" and "s \<noteq> []"
  shows "quiet (compileSFCMain x descriptor filePath publicPath w) s w"
  using assms by (simp add: compileSFCMain_def quiet_def lru_get_hit truthy_def)

lemma compileSFCTemplate_hit:
  assumes "map_of (vueCache w) filename = Some entry" and "cached_template entry = Some t" and "t \<noteq> []"
  shows "quiet (compileSFCTemplate x root tmpl filename publicPath scoped w) t w"
  using assms by (simp add: compileSFCTemplate_def quiet_def lru_get_hit truthy_def)

lemma compileSFCStyle_hit:
  assumes "map_of (vueCache w) filename = Some entry" and "getIndex (cached_styles entry) index = Some r"
  shows "quiet (compileSFCStyle x root style index filename publicPath w) r w"
  using assms by (simp add: compileSFCStyle_def quiet_def lru_get_hit)

lemma parseSFC_caches:
  assumes "parseSFC x root filename content w = (Some d, w1)"
  shows "\<exists>entry. map_of (vueCache w1) filename = Some entry \<and> cached_descriptor entry = Some d"
proof (cases "fst (lru_get (vueCache w) filename) \<noteq> None
    \<and> cached_descriptor (the (fst (lru_get (vueCache w) filename))) \<noteq> None")
  case True
  then obtain entry where e: "map_of (vueCache w) filename = Some entry"
    by (auto simp: lru_get_def split: option.splits)
  with True assms show ?thesis
    by (auto simp: parseSFC_def lru_get_hit)
next
  case False
  with assms show ?thesis
    by (auto simp: parseSFC_def Let_def map_of_lru_set split: prod.splits if_splits sum.splits option.splits)
qed

lemma compileSFCMain_nonempty: "concat (mainPieces x descriptor filePath publicPath sc) \<noteq> []"
  by (simp add: mainPieces_def)

lemma compileSFCMain_caches:
  assumes "compileSFCMain x descriptor filePath publicPath w = (c, w1)"
  shows "\<exists>entry. map_of (vueCache w1) filePath = Some entry \<and> cached_script entry = Some c \<and> c \<noteq> []"
proof (cases "fst (lru_get (vueCache w) filePath) \<noteq> None
    \<and> truthy (cached_script (the (fst (lru_get (vueCache w) filePath))))")
  case True
  then obtain entry where e: "map_of (vueCache w) filePath = Some entry"
    by (auto simp: lru_get_def split: option.splits)
  with True assms show ?thesis
    by (auto simp: compileSFCMain_def lru_get_hit truthy_def split: option.splits)
next
  case False
  with assms show ?thesis
    using compileSFCMain_nonempty
    by (auto simp: compileSFCMain_def Let_def map_of_lru_set split: prod.splits if_splits option.splits)
qed

lemma compileSFCTemplate_caches:
  assumes "compileSFCTemplate x root tmpl filename publicPath scoped w = (t, w1)"
  shows "\<exists>entry. map_of (vueCache w1) filename = Some entry \<and> cached_template entry = Some t"
proof (cases "fst (lru_get (vueCache w) filename) \<noteq> None
    \<and> truthy (cached_template (the (fst (lru_get (vueCache w) filename))))")
  case True
  then obtain entry where e: "map_of (vueCache w) filename = Some entry"
    by (auto simp: lru_get_def split: option.splits)
  with True assms show ?thesis
    by (auto simp: compileSFCTemplate_def lru_get_hit truthy_def split: option.splits)
next
  case False
  with assms show ?thesis
    by (auto simp: compileSFCTemplate_def Let_def map_of_lru_set split: prod.splits if_splits option.splits)
qed

lemma compileSFCStyle_caches:
  assumes "compileSFCStyle x root style index filename publicPath w = (r, w1)"
  shows "\<exists>entry. map_of (vueCache w1) filename = Some entry \<and> getIndex (cached_styles entry) index = Some r"
proof (cases "map_of (vueCache w) filename")
  case None
  with assms show ?thesis
    by (auto simp: compileSFCStyle_def lru_get_def Let_def map_of_lru_set getIndex_setIndex)
next
  case (Some entry)
  with assms show ?thesis
    by (cases "getIndex (cached_styles entry) index")
      (auto simp: compileSFCStyle_def lru_get_hit Let_def map_of_lru_set getIndex_setIndex orFresh_def)
qed

lemmas demo_compile = demoCompilers_def demoDescriptor_def demoStyle_def emptyWorld_def warmWorld_def
  warmEntry_def emptyTemplate_def
  parseSFC_def compileSFCMain_def compileSFCTemplate_def compileSFCStyle_def
  lru_get_def lru_set_def orFresh_def truthy_def getIndex_def setIndex_def noContent_def contentText_def


















section \<open>The claims about \<open>parse\<close>\<close>



text \<open>
  C2, as the code has it. When the content source rejects the read of a module that
  the resolver has found, \<open>parse\<close> rejects with the same error: the caller gets no
  node. The node that was registered in the graph cache just before the read has
  empty content and no dependencies.
\<close>

theorem content_failure_is_raised:
  assumes "resolver e filePath importer = Inr m"
    and "fileCache e (info_name m) = Inl err"
  shows "\<exists>item. parse (Suc n) e pos filePath importer =
           Some (Inl err, [Call pos filePath importer, CacheSet (info_path m) item, FileGet (info_name m)])
         \<and> module item = m \<and> rawContent item = [] \<and> dependencies item = [] \<and> fullDependencies item = []"
  using assms by (simp add: parse.simps newItem_fields)

theorem content_failure_is_raised_witness:
  "resolver demo ''/missing.ts'' [] = Inr \<lparr>info_name = ''missing.ts'', info_path = ''/missing.ts'', info_module = False\<rparr>
   \<and> fileCache demo ''missing.ts'' = Inl NotFound
   \<and> (\<exists>item. parse (Suc 0) demo [] ''/missing.ts'' [] =
           Some (Inl NotFound, [Call [] ''/missing.ts'' [], CacheSet ''/missing.ts'' item, FileGet ''missing.ts''])
         \<and> rawContent item = [] \<and> dependencies item = [] \<and> fullDependencies item = [])"
proof -
  let ?m = "\<lparr>info_name = ''missing.ts'', info_path = ''/missing.ts'', info_module = False\<rparr>"
  have 1: "resolver demo ''/missing.ts'' [] = Inr ?m" by (simp add: demo_defs)
  have 2: "fileCache demo (info_name ?m) = Inl NotFound" by (simp add: demo_defs)
  from content_failure_is_raised [OF 1 2, of 0 "[]"] 1 2
  show ?thesis by auto
qed

text \<open>
  C2, as the claim states it, fails on the sample project: the content source has no
  \<open>missing.ts\<close>, and the run on it ends with the rejection \<open>NotFound\<close> and no node.
\<close>

theorem content_failure_counterexample:
  "fileCache demo ''missing.ts'' = Inl NotFound
   \<and> map_option fst (parse 1 demo [] ''/missing.ts'' []) = Some (Inl NotFound)
   \<and> nodeOf (parse 1 demo [] ''/missing.ts'' []) = None"
  by (simp add: parse.simps demo_defs nodeOf_def)

text \<open>
  C1, on scenario A. \<open>main.ts\<close> holds \<open>import "./util.ts"\<close> and \<open>ts\<close> has a transform.
  The node gets the transformed code, and the extractor finds the edge to \<open>util.ts\<close>
  in that code; but \<open>parse\<close> gives the extractor \<open>item.sfc.script.code\<close>, which is
  empty for a file that is not composite, and the node has no edge at all.
\<close>

theorem scenario_A_finds_no_edge:
  "map_option (\<lambda>node. (code node, dependencies node, fullDependencies node))
     (nodeOf (parse 2 demo [] ''/main.ts'' [])) = Some (Some ''import \"./util.ts\"'', [], [])
   \<and> fst (parseImportsExports demo ''import \"./util.ts\"'' ''main.ts'' (resolver demo))
       = [demoEdge ''./util.ts'' ''/util.ts'' False]"
  by (simp add: parse.simps eval_nat_numeral demo_defs nodeOf_def newItem_def compileItem_def children_def
      thenStep_def settled_def awaitAll_def Let_def)



text \<open>
  C3, as the code has it. The transitive list of a returned node is its direct edges
  followed by the transitive lists of the nodes that the recursive calls for its
  non-external direct dependencies return, each list whole and none deduplicated,
  in the order in which those calls settle: the callback of \<open>then\<close> appends each as
  it arrives. That is the order of declaration when the calls settle in it; in any
  case the list has the same elements with the same multiplicities, and every
  dependency edge reachable from the entry is in it.
\<close>

theorem transitive_list_in_settle_order:
  assumes "parse (Suc n) e pos filePath importer = Some (Inr node, evs)"
  shows "\<exists>xs. length xs = length (children node)
      \<and> (\<forall>k<length xs. nodeOf (parse n e (pos @ [fst (children node ! k)])
             (info_path (info (snd (children node ! k)))) (info_path (module node))) = Some (xs ! k))
      \<and> fullDependencies node =
          dependencies node @ concat (map fullDependencies (settled e pos (zip (map fst (children node)) xs)))
      \<and> (sorted (map (\<lambda>i. settle e (pos @ [i])) (map fst (children node))) \<longrightarrow>
          fullDependencies node = dependencies node @ concat (map fullDependencies xs))
      \<and> mset (fullDependencies node) = mset (dependencies node) + mset (concat (map fullDependencies xs))
      \<and> (\<forall>d. reachable e (filePath, importer) d \<longrightarrow> d \<in> set (fullDependencies node))"
proof -
  from assms obtain item xs where item: "seeded e filePath importer = Some item"
    and len: "length xs = length (children node)"
    and sub: "\<And>k. k < length xs \<Longrightarrow>
           nodeOf (parse n e (pos @ [fst (children node ! k)]) (fst (callOf node (snd (children node ! k))))
             (snd (callOf node (snd (children node ! k))))) = Some (xs ! k)"
    and node: "node = foldl thenStep item (settled e pos (zip (map fst (children node)) xs))"
    and deps: "dependencies node = dependencies item"
    and seed: "fullDependencies item = dependencies item"
    by (rule parse_node_shape) (rule that)
  let ?done = "settled e pos (zip (map fst (children node)) xs)"
  have full: "fullDependencies node = dependencies node @ concat (map fullDependencies ?done)"
    by (subst node) (simp add: foldl_thenStep seed deps)
  have "mset ?done = mset xs"
    using len by (simp add: mset_settled)
  then have perm: "mset (concat (map fullDependencies ?done)) = mset (concat (map fullDependencies xs))"
    by (rule mset_concat_map_cong)
  have ms: "mset (fullDependencies node) = mset (dependencies node) + mset (concat (map fullDependencies xs))"
    by (subst full) (simp add: perm)
  have ord: "fullDependencies node = dependencies node @ concat (map fullDependencies xs)"
    if "sorted (map (\<lambda>i. settle e (pos @ [i])) (map fst (children node)))"
    using settled_sorted [OF that, of xs] len full by simp
  have reach: "d \<in> set (fullDependencies node)" if "reachable e (filePath, importer) d" for d
    using reachable_in_fullDependencies [OF that, of "Suc n" pos node evs] assms by simp
  from len sub full ord ms reach show ?thesis
    by (intro exI [of _ xs]) (simp add: callOf_def)
qed

theorem transitive_list_in_settle_order_witness:
  "\<exists>node evs. parse (Suc 2) demo [] ''/main.vue'' [] = Some (Inr node, evs)
     \<and> reachable demo (''/main.vue'', []) (demoEdge ''./c.ts'' ''/c.ts'' False)
     \<and> demoEdge ''./c.ts'' ''/c.ts'' False \<in> set (fullDependencies node)
     \<and> (\<exists>xs :: ZipeModule list. length xs = length (children node)
          \<and> fullDependencies node =
              dependencies node @ concat (map fullDependencies (settled demo [] (zip (map fst (children node)) xs)))
          \<and> mset (fullDependencies node) = mset (dependencies node) + mset (concat (map fullDependencies xs)))"
proof -
  obtain node evs where h: "parse (Suc 2) demo [] ''/main.vue'' [] = Some (Inr node, evs)"
    by (simp add: demo_eval)
  from transitive_list_in_settle_order [OF h] obtain xs where a: "length xs = length (children node)"
    and "\<forall>k<length xs. nodeOf (parse 2 demo ([] @ [fst (children node ! k)])
             (info_path (info (snd (children node ! k)))) (info_path (module node))) = Some (xs ! k)"
    and b: "fullDependencies node =
           dependencies node @ concat (map fullDependencies (settled demo [] (zip (map fst (children node)) xs)))"
    and "sorted (map (\<lambda>i. settle demo ([] @ [i])) (map fst (children node))) \<longrightarrow>
          fullDependencies node = dependencies node @ concat (map fullDependencies xs)"
    and c: "mset (fullDependencies node) = mset (dependencies node) + mset (concat (map fullDependencies xs))"
    and d: "\<forall>d. reachable demo (''/main.vue'', []) d \<longrightarrow> d \<in> set (fullDependencies node)"
    by (elim exE conjE) (rule that)
  note m = d [rule_format, OF demo_reaches_c]
  have x: "\<exists>xs :: ZipeModule list. length xs = length (children node)
          \<and> fullDependencies node =
              dependencies node @ concat (map fullDependencies (settled demo [] (zip (map fst (children node)) xs)))
          \<and> mset (fullDependencies node) = mset (dependencies node) + mset (concat (map fullDependencies xs))"
    by (intro exI [of _ xs] conjI a b c)
  show ?thesis
    by (intro exI [of _ node] exI [of _ evs] conjI) (rule h demo_reaches_c m x)+
qed

text \<open>
  C3, as the claim states it, fails on the sample project. \<open>main.vue\<close> imports
  \<open>A.vue\<close>, then \<open>B.vue\<close>; \<open>A.vue\<close> imports \<open>c.ts\<close> and \<open>B.vue\<close> imports the external
  \<open>vue\<close>. The resolution of \<open>B.vue\<close> settles first, and the transitive list of
  \<open>main.vue\<close> has the edge to \<open>vue\<close> before the edge to \<open>c.ts\<close>.
\<close>

theorem declaration_order_counterexample:
  "map_option (map importPath \<circ> dependencies) (nodeOf (parse 3 demo [] ''/main.vue'' []))
     = Some [''./A.vue'', ''./B.vue'']
   \<and> map_option (map importPath \<circ> fullDependencies) (nodeOf (parse 2 demo [0] ''/A.vue'' ''/main.vue''))
     = Some [''./c.ts'']
   \<and> map_option (map importPath \<circ> fullDependencies) (nodeOf (parse 2 demo [1] ''/B.vue'' ''/main.vue''))
     = Some [''vue'']
   \<and> map_option (map importPath \<circ> fullDependencies) (nodeOf (parse 3 demo [] ''/main.vue'' []))
     = Some [''./A.vue'', ''./B.vue'', ''vue'', ''./c.ts'']
   \<and> map_option fullDependencies (nodeOf (parse 3 demo [] ''/main.vue'' []))
     \<noteq> Some (dependencies (the (nodeOf (parse 3 demo [] ''/main.vue'' [])))
             @ fullDependencies (the (nodeOf (parse 2 demo [0] ''/A.vue'' ''/main.vue'')))
             @ fullDependencies (the (nodeOf (parse 2 demo [1] ''/B.vue'' ''/main.vue''))))"
  by (simp add: demo_eval)

text \<open>
  C10. A node that \<open>parse\<close> returns has \<open>dependenciesPromise = null\<close>. When \<open>parse\<close>
  returns it, the recursive call for each non-external direct dependency has
  returned its node, and the transitive list of that node is in the returned one.
\<close>

theorem dependenciesPromise_stays_null:
  assumes "parse n e pos filePath importer = Some (Inr node, evs)"
  shows "dependenciesPromise node = None
      \<and> (\<forall>k<length (children node). \<exists>x.
            nodeOf (parse (n - 1) e (pos @ [fst (children node ! k)])
              (info_path (info (snd (children node ! k)))) (info_path (module node))) = Some x
            \<and> set (fullDependencies x) \<subseteq> set (fullDependencies node))"
proof -
  from assms obtain n' where n: "n = Suc n'" by (cases n) auto
  from assms [unfolded n] obtain item xs where item: "seeded e filePath importer = Some item"
    and len: "length xs = length (children node)"
    and sub: "\<And>k. k < length xs \<Longrightarrow>
           nodeOf (parse n' e (pos @ [fst (children node ! k)]) (fst (callOf node (snd (children node ! k))))
             (snd (callOf node (snd (children node ! k))))) = Some (xs ! k)"
    and node: "node = foldl thenStep item (settled e pos (zip (map fst (children node)) xs))"
    and deps: "dependencies node = dependencies item"
    and seed: "fullDependencies item = dependencies item"
    by (rule parse_node_shape) (rule that)
  have 1: "dependenciesPromise node = None"
    by (subst node) (simp add: foldl_thenStep seeded_fields(2) [OF item])
  have 2: "set (fullDependencies (xs ! k)) \<subseteq> set (fullDependencies node)" if "k < length xs" for k
  proof -
    from that len have "xs ! k \<in> set (settled e pos (zip (map fst (children node)) xs))"
      by (simp add: set_settled_zip)
    then have "set (fullDependencies (xs ! k))
        \<subseteq> set (concat (map fullDependencies (settled e pos (zip (map fst (children node)) xs))))"
      by auto
    then show ?thesis by (subst node) (auto simp: foldl_thenStep)
  qed
  from 1 2 sub len show ?thesis
    by (simp add: n callOf_def)
qed

theorem dependenciesPromise_stays_null_witness:
  "\<exists>node evs. parse 3 demo [] ''/main.vue'' [] = Some (Inr node, evs)
     \<and> dependenciesPromise node = None
     \<and> 0 < length (children node)
     \<and> (\<exists>x. nodeOf (parse (3 - 1) demo ([] @ [fst (children node ! 0)])
              (info_path (info (snd (children node ! 0)))) (info_path (module node))) = Some x
            \<and> set (fullDependencies x) \<subseteq> set (fullDependencies node))"
proof -
  obtain node evs where h: "parse 3 demo [] ''/main.vue'' [] = Some (Inr node, evs)"
    by (simp add: demo_eval)
  have "0 < length (children (the (nodeOf (parse 3 demo [] ''/main.vue'' []))))"
    by (simp add: demo_eval)
  with h have "0 < length (children node)" by (simp add: nodeOf_def)
  with dependenciesPromise_stays_null [OF h] h show ?thesis
    by (intro exI [of _ node] exI [of _ evs]) (simp del: append.simps One_nat_def)
qed

text \<open>
  C7. On a run that returns a node, each direct dependency flagged external is an
  edge of the node, in its transitive list too, and no call of the run is at or
  below the position of that dependency: \<open>parse\<close> is not called on it. The calls
  that the run makes itself are those for the direct dependencies that are not
  external, one each, in the order of declaration.
\<close>

theorem external_dependency_not_parsed:
  assumes "parse n e pos filePath importer = Some (Inr node, evs)"
  shows "(\<forall>i<length (dependencies node). info_module (info (dependencies node ! i)) \<longrightarrow>
            dependencies node ! i \<in> set (fullDependencies node)
            \<and> (\<forall>c\<in>set (callsOf evs). \<not> prefix (pos @ [i]) (fst c)))
       \<and> directCalls pos evs =
           map (\<lambda>(j, d). (pos @ [j], info_path (info d), info_path (module node)))
             (filter (\<lambda>(j, d). \<not> info_module (info d)) (enumerate 0 (dependencies node)))"
proof -
  from assms obtain n' where n: "n = Suc n'" by (cases n) auto
  note run = assms [unfolded n]
  from run obtain item xs where item: "seeded e filePath importer = Some item"
    and len: "length xs = length (children node)"
    and sub: "\<And>k. k < length xs \<Longrightarrow>
           nodeOf (parse n' e (pos @ [fst (children node ! k)]) (fst (callOf node (snd (children node ! k))))
             (snd (callOf node (snd (children node ! k))))) = Some (xs ! k)"
    and node: "node = foldl thenStep item (settled e pos (zip (map fst (children node)) xs))"
    and deps: "dependencies node = dependencies item"
    and seed: "fullDependencies item = dependencies item"
    by (rule parse_node_shape) (rule that)
  have ch: "children node = children item" and co: "callOf node = callOf item"
    by (subst node, simp add: children_foldl callOf_foldl fun_eq_iff)+
  have full: "set (dependencies node) \<subseteq> set (fullDependencies node)"
    by (subst (2) node) (simp add: foldl_thenStep seed deps)
  have ext: "\<not> prefix (pos @ [i]) (fst c)"
    if i: "i < length (dependencies node)" "info_module (info (dependencies node ! i))"
      and c: "c \<in> set (callsOf evs)" for i c
  proof
    assume p: "prefix (pos @ [i]) (fst c)"
    from parse_calls_below [OF run c] item
    consider "fst c = pos" | j d where "(j, d) \<in> set (children item)" "prefix (pos @ [j]) (fst c)"
      by auto
    then show False
    proof cases
      case 1
      with p have "length (pos @ [i]) \<le> length pos" by (auto dest: prefix_length_le)
      then show False by simp
    next
      case 2
      from 2(1) have j: "d = dependencies item ! j" "\<not> info_module (info d)"
        by (auto simp: children_mem)
      from p 2(2) have "prefix (pos @ [i]) (pos @ [j]) \<or> prefix (pos @ [j]) (pos @ [i])"
        by (rule prefix_same_cases)
      then have "i = j" by auto
      with j i deps show False by simp
    qed
  qed
  have direct: "directCalls pos evs =
      map (\<lambda>(j, d). (pos @ [j], info_path (info d), info_path (module node)))
        (filter (\<lambda>(j, d). \<not> info_module (info d)) (enumerate 0 (dependencies node)))"
    using parse_directCalls [OF run item] ch co
    by (simp add: children_def callOf_def fun_eq_iff)
  from full ext direct show ?thesis
    by (auto simp: subset_iff)
qed

theorem external_dependency_not_parsed_witness:
  "\<exists>node evs. parse 2 demo [1] ''/B.vue'' ''/main.vue'' = Some (Inr node, evs)
     \<and> 0 < length (dependencies node) \<and> info_module (info (dependencies node ! 0))
     \<and> dependencies node ! 0 \<in> set (fullDependencies node)
     \<and> (\<forall>c\<in>set (callsOf evs). \<not> prefix ([1] @ [0]) (fst c))
     \<and> directCalls [1] evs = []"
proof -
  obtain node evs where h: "parse 2 demo [1] ''/B.vue'' ''/main.vue'' = Some (Inr node, evs)"
    by (simp add: demo_eval)
  have "map (info_module \<circ> info) (dependencies (the (nodeOf (parse 2 demo [1] ''/B.vue'' ''/main.vue'')))) = [True]"
    by (simp add: demo_eval)
  with h have d: "map (info_module \<circ> info) (dependencies node) = [True]"
    by (simp add: nodeOf_def)
  then have l: "0 < length (dependencies node)" and x: "info_module (info (dependencies node ! 0))"
    by (cases "dependencies node"; simp)+
  from d have "filter (\<lambda>(j, d). \<not> info_module (info d)) (enumerate 0 (dependencies node)) = []"
    by (cases "dependencies node") auto
  with external_dependency_not_parsed [OF h] l x
  have "dependencies node ! 0 \<in> set (fullDependencies node)
     \<and> (\<forall>c\<in>set (callsOf evs). \<not> prefix ([1] @ [0]) (fst c))
     \<and> directCalls [1] evs = []"
    by simp
  with h l x show ?thesis
    by (intro exI [of _ node] exI [of _ evs]) simp
qed




section \<open>The claims about the compile functions\<close>

text \<open>
  C4, as the code has it. Each compile step (\<open>parseSFC\<close>, \<open>compileSFCMain\<close>,
  \<open>compileSFCTemplate\<close>, \<open>compileSFCStyle\<close>) first reads the cache entry of the path
  and, when the entry has its sub-field and, for the script and the template code,
  the cached string is not empty, returns the cached value and invokes nothing.
  Hence a second run of a step on the state that the first run left returns the
  same value and invokes nothing: always for the parse, the script and a style
  block, and for the template when its compiled code is not empty.
\<close>

theorem cached_block_is_not_recompiled:
  "(map_of (vueCache w) filename = Some entry \<longrightarrow>
       (cached_descriptor entry = Some d \<longrightarrow>
          quiet (parseSFC x root filename content w) (Some d) w)
     \<and> (cached_script entry = Some s \<and> s \<noteq> [] \<longrightarrow>
          quiet (compileSFCMain x descriptor filename publicPath w) s w)
     \<and> (cached_template entry = Some t \<and> t \<noteq> [] \<longrightarrow>
          quiet (compileSFCTemplate x root tmpl filename publicPath scoped w) t w)
     \<and> (getIndex (cached_styles entry) index = Some r \<longrightarrow>
          quiet (compileSFCStyle x root style index filename publicPath w) r w))
   \<and> (parseSFC x root filename content w = (Some d1, w1) \<longrightarrow>
        quiet (parseSFC x root filename content w1) (Some d1) w1)
   \<and> (compileSFCMain x descriptor filename publicPath w = (c2, w2) \<longrightarrow>
        quiet (compileSFCMain x descriptor filename publicPath w2) c2 w2)
   \<and> (compileSFCTemplate x root tmpl filename publicPath scoped w = (t3, w3) \<and> t3 \<noteq> [] \<longrightarrow>
        quiet (compileSFCTemplate x root tmpl filename publicPath scoped w3) t3 w3)
   \<and> (compileSFCStyle x root style index filename publicPath w = (r4, w4) \<longrightarrow>
        quiet (compileSFCStyle x root style index filename publicPath w4) r4 w4)"
proof (intro conjI impI)
  assume "parseSFC x root filename content w = (Some d1, w1)"
  from parseSFC_caches [OF this] show "quiet (parseSFC x root filename content w1) (Some d1) w1"
    by (auto intro: parseSFC_hit)
next
  assume "compileSFCMain x descriptor filename publicPath w = (c2, w2)"
  from compileSFCMain_caches [OF this] show "quiet (compileSFCMain x descriptor filename publicPath w2) c2 w2"
    by (auto intro: compileSFCMain_hit)
next
  assume "compileSFCTemplate x root tmpl filename publicPath scoped w = (t3, w3) \<and> t3 \<noteq> []"
  then have run: "compileSFCTemplate x root tmpl filename publicPath scoped w = (t3, w3)" and t3: "t3 \<noteq> []"
    by simp_all
  from compileSFCTemplate_caches [OF run] t3
  show "quiet (compileSFCTemplate x root tmpl filename publicPath scoped w3) t3 w3"
    by (auto intro: compileSFCTemplate_hit)
next
  assume "compileSFCStyle x root style index filename publicPath w = (r4, w4)"
  from compileSFCStyle_caches [OF this]
  show "quiet (compileSFCStyle x root style index filename publicPath w4) r4 w4"
    by (auto intro: compileSFCStyle_hit)
qed (auto intro: parseSFC_hit compileSFCMain_hit compileSFCTemplate_hit compileSFCStyle_hit)

theorem cached_block_is_not_recompiled_witness:
  "map_of (vueCache warmWorld) ''/src/App.vue'' = Some warmEntry
   \<and> quiet (parseSFC demoCompilers ''/'' ''/src/App.vue'' NoContent warmWorld)
        (Some (demoDescriptor [demoStyle (Some True) None])) warmWorld
   \<and> quiet (compileSFCMain demoCompilers (demoDescriptor []) ''/src/App.vue'' ''/src/App.vue'' warmWorld)
        ''const __script = {}'' warmWorld
   \<and> quiet (compileSFCTemplate demoCompilers ''/'' emptyTemplate ''/src/App.vue'' ''/src/App.vue'' False warmWorld)
        ''export function render() {}'' warmWorld
   \<and> quiet (compileSFCStyle demoCompilers ''/'' (demoStyle None None) 0 ''/src/App.vue'' ''/src/App.vue'' warmWorld)
        \<lparr> result_code = ''p { color: red }'', result_map = None, result_errors = [], result_modules = None \<rparr>
        warmWorld
   \<and> (\<exists>d1 w1. parseSFC demoCompilers ''/'' ''/src/App.vue'' (Text ''<p>hi</p>'') emptyWorld = (Some d1, w1)
         \<and> quiet (parseSFC demoCompilers ''/'' ''/src/App.vue'' (Text ''<p>hi</p>'') w1) (Some d1) w1)
   \<and> (\<exists>c2 w2. compileSFCMain demoCompilers (demoDescriptor []) ''/src/App.vue'' ''/src/App.vue'' emptyWorld = (c2, w2)
         \<and> quiet (compileSFCMain demoCompilers (demoDescriptor []) ''/src/App.vue'' ''/src/App.vue'' w2) c2 w2)
   \<and> (\<exists>t3 w3. compileSFCTemplate demoCompilers ''/'' (the (desc_template (demoDescriptor [])))
           ''/src/App.vue'' ''/src/App.vue'' False emptyWorld = (t3, w3) \<and> t3 \<noteq> []
         \<and> quiet (compileSFCTemplate demoCompilers ''/'' (the (desc_template (demoDescriptor [])))
             ''/src/App.vue'' ''/src/App.vue'' False w3) t3 w3)
   \<and> (\<exists>r4 w4. compileSFCStyle demoCompilers ''/'' (demoStyle None None) 0 ''/src/App.vue'' ''/src/App.vue''
           emptyWorld = (r4, w4)
         \<and> quiet (compileSFCStyle demoCompilers ''/'' (demoStyle None None) 0 ''/src/App.vue'' ''/src/App.vue'' w4)
             r4 w4)"
proof -
  let ?r = "\<lparr> result_code = ''p { color: red }'', result_map = None, result_errors = [],
    result_modules = None \<rparr>"
  have m: "map_of (vueCache warmWorld) ''/src/App.vue'' = Some warmEntry"
    by (simp add: warmWorld_def)
  have e: "cached_descriptor warmEntry = Some (demoDescriptor [demoStyle (Some True) None])"
    "cached_script warmEntry = Some ''const __script = {}'' \<and> ''const __script = {}'' \<noteq> []"
    "cached_template warmEntry = Some ''export function render() {}'' \<and> ''export function render() {}'' \<noteq> []"
    "getIndex (cached_styles warmEntry) 0 = Some ?r"
    by (simp_all add: warmEntry_def getIndex_def)
  note hit = cached_block_is_not_recompiled [where w = warmWorld and filename = "''/src/App.vue''"
      and entry = warmEntry and x = demoCompilers and root = "''/''" and publicPath = "''/src/App.vue''"
      and index = 0 and r = ?r, THEN conjunct1, THEN mp, OF m]
  note h1 = hit [THEN conjunct1, THEN mp, OF e(1)]
  note h2 = hit [THEN conjunct2, THEN conjunct1, THEN mp, OF e(2)]
  note h3 = hit [THEN conjunct2, THEN conjunct2, THEN conjunct1, THEN mp, OF e(3)]
  note h4 = hit [THEN conjunct2, THEN conjunct2, THEN conjunct2, THEN mp, OF e(4)]
  note again = cached_block_is_not_recompiled [where w = emptyWorld and filename = "''/src/App.vue''"
      and x = demoCompilers and root = "''/''" and publicPath = "''/src/App.vue''", THEN conjunct2]
  obtain d1 w1 where r1: "parseSFC demoCompilers ''/'' ''/src/App.vue'' (Text ''<p>hi</p>'') emptyWorld = (Some d1, w1)"
    by (simp add: demo_compile)
  obtain c2 w2 where r2: "compileSFCMain demoCompilers (demoDescriptor []) ''/src/App.vue'' ''/src/App.vue'' emptyWorld = (c2, w2)"
    by (cases "compileSFCMain demoCompilers (demoDescriptor []) ''/src/App.vue'' ''/src/App.vue'' emptyWorld")
  obtain t3 w3 where r3: "compileSFCTemplate demoCompilers ''/'' (the (desc_template (demoDescriptor [])))
           ''/src/App.vue'' ''/src/App.vue'' False emptyWorld = (t3, w3)" and t3: "t3 \<noteq> []"
    by (simp add: demo_compile)
  obtain r4 w4 where r4: "compileSFCStyle demoCompilers ''/'' (demoStyle None None) 0 ''/src/App.vue'' ''/src/App.vue''
           emptyWorld = (r4, w4)"
    by (cases "compileSFCStyle demoCompilers ''/'' (demoStyle None None) 0 ''/src/App.vue'' ''/src/App.vue'' emptyWorld")
  note a1 = again [THEN conjunct1, THEN mp, OF r1]
  note a2 = again [THEN conjunct2, THEN conjunct1, THEN mp, OF r2]
  note a3 = again [THEN conjunct2, THEN conjunct2, THEN conjunct1, THEN mp, OF conjI [OF r3 t3]]
  note a4 = again [THEN conjunct2, THEN conjunct2, THEN conjunct2, THEN mp, OF r4]
  from r1 a1 have b1: "\<exists>d1 w1. parseSFC demoCompilers ''/'' ''/src/App.vue'' (Text ''<p>hi</p>'') emptyWorld = (Some d1, w1)
         \<and> quiet (parseSFC demoCompilers ''/'' ''/src/App.vue'' (Text ''<p>hi</p>'') w1) (Some d1) w1"
    by blast
  from r2 a2 have b2: "\<exists>c2 w2. compileSFCMain demoCompilers (demoDescriptor []) ''/src/App.vue'' ''/src/App.vue'' emptyWorld = (c2, w2)
         \<and> quiet (compileSFCMain demoCompilers (demoDescriptor []) ''/src/App.vue'' ''/src/App.vue'' w2) c2 w2"
    by blast
  from r3 t3 a3 have b3: "\<exists>t3 w3. compileSFCTemplate demoCompilers ''/'' (the (desc_template (demoDescriptor [])))
           ''/src/App.vue'' ''/src/App.vue'' False emptyWorld = (t3, w3) \<and> t3 \<noteq> []
         \<and> quiet (compileSFCTemplate demoCompilers ''/'' (the (desc_template (demoDescriptor [])))
             ''/src/App.vue'' ''/src/App.vue'' False w3) t3 w3"
    by blast
  from r4 a4 have b4: "\<exists>r4 w4. compileSFCStyle demoCompilers ''/'' (demoStyle None None) 0 ''/src/App.vue'' ''/src/App.vue''
           emptyWorld = (r4, w4)
         \<and> quiet (compileSFCStyle demoCompilers ''/'' (demoStyle None None) 0 ''/src/App.vue'' ''/src/App.vue'' w4)
             r4 w4"
    by blast
  show ?thesis
    by (intro conjI m h1 h2 h3 h4 b1 b2 b3 b4)
qed

text \<open>
  C4, as the claim states it, fails for a template whose compiled code is empty: the
  first run stores the empty string in the entry, the test \<open>cached.template\<close> of
  the second run finds it falsy, and the template compiler is invoked again.
\<close>

theorem empty_template_counterexample:
  "map_option cached_template
     (map_of (vueCache (snd (compileSFCTemplate demoCompilers ''/'' emptyTemplate ''/src/App.vue'' ''/src/App.vue''
        False emptyWorld))) ''/src/App.vue'') = Some (Some [])
   \<and> invoked (snd (compileSFCTemplate demoCompilers ''/'' emptyTemplate ''/src/App.vue'' ''/src/App.vue'' False
        emptyWorld)) = [InvCompileTemplate ''/src/App.vue'']
   \<and> invoked (snd (compileSFCTemplate demoCompilers ''/'' emptyTemplate ''/src/App.vue'' ''/src/App.vue'' False
        (snd (compileSFCTemplate demoCompilers ''/'' emptyTemplate ''/src/App.vue'' ''/src/App.vue'' False
           emptyWorld))))
       = [InvCompileTemplate ''/src/App.vue'', InvCompileTemplate ''/src/App.vue'']"
  by (simp add: demo_compile)




end
